theory Spec2Isabelle
  imports Main "HOL-Library.Word"
begin

unbundle bit_operations_syntax

section \<open>Ring code: frame codec of the encoder and the decoder\<close>

text \<open>
  The development embeds the frame codec of the ring code: \<open>encodeText\<close> and its helpers
  from \<open>src/lib/ringcode.ts\<close>, and \<open>tryDecodeLinear\<close>, \<open>rsDecodeSimple\<close>,
  \<open>bitsToBytes\<close> and \<open>checksum8\<close> from the decoder module.

  Conventions of the embedding:
  \<^item> an element of a \<open>Uint8Array\<close> is an \<open>8 word\<close>; a store into a \<open>Uint8Array\<close>
    keeps the low 8 bits of an integer, which is what \<open>of_nat\<close> and \<open>of_int\<close> into
    \<open>8 word\<close> do;
  \<^item> \<open>number[]\<close> arrays of bits and of codeword bytes are \<open>nat list\<close>;
  \<^item> a JavaScript \<open>number\<close> that the code uses as an integer is \<open>nat\<close> where it is a
    length or a count and \<open>int\<close> otherwise. The bitwise operators of JavaScript work on
    32-bit integers; every result the code keeps is masked to its low 8 bits (by
    \<open>& 0xFF\<close> or by the store into a \<open>Uint8Array\<close>), and the low 8 bits of the 32-bit
    result and of the unbounded result agree, so the model computes on unbounded
    integers;
  \<^item> a text is a JavaScript string, a list of 16-bit code units. \<open>TextEncoder\<close> and
    \<open>TextDecoder\<close> belong to the platform and are modelled from their standard
    (\<open>TextEncoder_encode\<close>, \<open>TextDecoder_decode\<close>). \<open>encodeText\<close> of the model takes the
    bytes \<open>textBytes = encoder.encode(text)\<close>, so the call \<open>encodeText(text, level)\<close> of
    the source is \<open>encodeText (TextEncoder_encode text) level\<close>; \<open>tryDecodeLinear\<close>
    returns the decoded string, or \<open>None\<close> for \<open>null\<close>;
  \<^item> the \<open>Error\<close> thrown by \<open>encodeText\<close> is the value \<open>Inl PayloadTooLarge\<close>.
\<close>

type_synonym byte = "8 word"

subsection \<open>Layout constants\<close>

definition SECTORS :: "nat list" where
  "SECTORS = [128, 192, 256, 256, 256, 256]"

definition START_PATTERN_BITS :: "nat list" where
  "START_PATTERN_BITS = concat (replicate 16 [1, 0])"

definition HEADER_BYTES :: nat where
  "HEADER_BYTES = 7"

definition HEADER_BITS :: nat where
  "HEADER_BITS = HEADER_BYTES * 8"

text \<open>\<open>SECTORS.reduce((a, b) => a + b, 0)\<close>\<close>

definition capacityBits :: nat where
  "capacityBits = foldl (\<lambda>a b. a + b) 0 SECTORS"

definition capacityDataBits :: int where
  "capacityDataBits = int capacityBits - int (length START_PATTERN_BITS) - int HEADER_BITS"

subsection \<open>Bits and bytes\<close>

text \<open>\<open>bytesToBits\<close>: for every byte, \<open>(byte >> i) & 1\<close> for \<open>i\<close> from 7 down to 0
  (the inner loop is \<open>bits8\<close>).\<close>

definition bits8 :: "byte \<Rightarrow> nat list" where
  "bits8 byte = map (\<lambda>i. unat (drop_bit i byte AND 1)) [7, 6, 5, 4, 3, 2, 1, 0]"

definition bytesToBits :: "byte list \<Rightarrow> nat list" where
  "bytesToBits bytes = concat (map bits8 bytes)"

text \<open>
  \<open>bitsToBytes\<close>: one byte for every started group of 8 bits,
  \<open>b = (b << 1) | (i + j < bits.length ? bits[i + j] : 0)\<close> for \<open>j\<close> from 0 to 7, stored
  into a \<open>Uint8Array\<close>. \<open>byteAt\<close> is the inner loop, on the bits from position \<open>i\<close> on.
\<close>

definition byteAt :: "nat list \<Rightarrow> byte" where
  "byteAt bits =
     of_nat (foldl (\<lambda>b j. push_bit 1 b OR (if j < length bits then bits ! j else 0)) 0 [0..<8])"

fun bitsToBytes :: "nat list \<Rightarrow> byte list" where
  "bitsToBytes [] = []"
| "bitsToBytes (x # xs) = byteAt (x # xs) # bitsToBytes (drop 8 (x # xs))"

text \<open>
  \<open>checksum8\<close>: the sum of the bytes, \<open>& 0xFF\<close>. The encoder module and the decoder
  module each have their own copy (a \<open>reduce\<close> and a \<open>for\<close> loop) of the same function.
\<close>

definition checksum8 :: "byte list \<Rightarrow> nat" where
  "checksum8 bb = foldl (\<lambda>sum byte. sum + unat byte) 0 bb AND 255"

text \<open>\<open>xs.slice(a, b)\<close> for \<open>0 \<le> a\<close> and \<open>0 \<le> b\<close>: both ends are clamped to the length.\<close>

definition array_slice :: "'a list \<Rightarrow> nat \<Rightarrow> nat \<Rightarrow> 'a list" where
  "array_slice xs a b = take (b - a) (drop a xs)"

subsection \<open>The redundancy layer\<close>

text \<open>
  \<open>simpleRS\<close>: a zeroed array of \<open>data.length + eccBytes\<close> bytes, \<open>result.set(data)\<close>,
  then for every \<open>i < eccBytes\<close> the inner loop \<open>sum ^= data[j] * (i + 1)\<close> and the store
  \<open>result[data.length + i] = sum & 0xFF\<close>.
\<close>

definition simpleRS :: "byte list \<Rightarrow> nat \<Rightarrow> byte list" where
  "simpleRS data eccBytes =
     (let result0 = replicate (length data + eccBytes) (0 :: byte);
          result1 = data @ drop (length data) result0
      in foldl (\<lambda>result i.
             let sum = foldl (\<lambda>sum j. sum XOR (unat (data ! j) * (i + 1))) (0 :: nat)
                         [0..<length data]
             in result[length data + i := of_nat (sum AND 255)])
           result1 [0..<eccBytes])"

text \<open>
  \<open>rsDecodeSimple\<close>. The XOR of the data (\<open>checkXor\<close>) is computed and never read. The
  test \<open>zeros > dataLen * 0.8\<close> is a comparison of an integer with a double; for every
  length an array can have, it holds exactly when \<open>5 * zeros > 4 * dataLen\<close> (the product
  \<open>dataLen * 0.8\<close> is the integer \<open>4 * dataLen / 5\<close> itself when 5 divides \<open>dataLen\<close>,
  and lies strictly between two integers otherwise), which is how the model writes it.
\<close>

definition rsDecodeSimple :: "nat list \<Rightarrow> int \<Rightarrow> nat list option" where
  "rsDecodeSimple codeword eccLen =
     (let dataLen = int (length codeword) - eccLen in
      if dataLen \<le> 0 \<or> int (length codeword) < eccLen then None
      else
        let data = take (nat dataLen) codeword;
            checkXor = foldl (\<lambda>c x. c XOR x) (0 :: nat) data;
            zeros = length (filter (\<lambda>x. x = 0) data);
            ones = length (filter (\<lambda>x. x = 255) data)
        in if 5 * int zeros > 4 * dataLen \<or> 5 * int ones > 4 * dataLen then None
           else Some data)"

subsection \<open>The encoder\<close>

text \<open>
  \<open>encodeText\<close> is one function in the source. Its local values \<open>eccBytes\<close>,
  \<open>maxPayloadBytes\<close> and \<open>header\<close> are definitions of their own here, each a function
  of what it is computed from, so that the statements below can name them.
\<close>

datatype error = PayloadTooLarge

text \<open>\<open>eccMap[eccLevel] || 32\<close>: no entry of the table is 0, so the default is taken
  exactly for the keys that are not in the table.\<close>

definition eccMap :: "int \<rightharpoonup> nat" where
  "eccMap = [0 \<mapsto> 8, 1 \<mapsto> 16, 2 \<mapsto> 32, 3 \<mapsto> 64]"

definition eccBytes :: "int \<Rightarrow> nat" where
  "eccBytes eccLevel = (case eccMap eccLevel of Some n \<Rightarrow> if n = 0 then 32 else n | None \<Rightarrow> 32)"

definition maxPayloadBytes :: "int \<Rightarrow> int" where
  "maxPayloadBytes eccLevel =
     (let dataBitsAvail = capacityDataBits - int (eccBytes eccLevel) * 8
      in dataBitsAvail div 8)"

text \<open>The 7 header bytes: version, level, payload length (2), redundancy length (2),
  checksum of the first six. \<open>textLen\<close> is \<open>textBytes.length\<close> and \<open>ecc\<close> is
  \<open>eccBytes\<close>.\<close>

definition header :: "int \<Rightarrow> nat \<Rightarrow> nat \<Rightarrow> byte list" where
  "header eccLevel textLen ecc =
     (let header6 = [3, of_int eccLevel,
                     of_nat (drop_bit 8 textLen AND 255), of_nat (textLen AND 255),
                     of_nat (drop_bit 8 ecc AND 255), of_nat (ecc AND 255)]
      in header6 @ [of_nat (checksum8 header6)])"

text \<open>
  The loop \<open>while (allBits.length < capacityBits()) allBits.push(0)\<close> appends
  \<open>capacityBits - allBits.length\<close> zeros (none when the length is already reached).
\<close>

definition encodeText :: "byte list \<Rightarrow> int \<Rightarrow> error + nat list" where
  "encodeText textBytes eccLevel =
     (if int (length textBytes) > maxPayloadBytes eccLevel then Inl PayloadTooLarge
      else
        let payload = textBytes @
                        drop (length textBytes) (replicate (nat (maxPayloadBytes eccLevel)) 0);
            encoded = simpleRS payload (eccBytes eccLevel);
            allBits = START_PATTERN_BITS
                        @ bytesToBits (header eccLevel (length textBytes) (eccBytes eccLevel))
                        @ bytesToBits encoded;
            padded = allBits @ replicate (capacityBits - length allBits) 0
        in Inr (array_slice padded 0 capacityBits))"

subsection \<open>The text codec of the platform\<close>

text \<open>
  \<open>TextEncoder\<close> and \<open>TextDecoder\<close> are not code of this repository. They are modelled
  from the Encoding Standard that defines them and from the conversion of a JavaScript
  string to scalar values that \<open>TextEncoder.encode\<close> applies to its argument.

  A JavaScript string is a sequence of 16-bit code units. \<open>toScalarValues\<close> reads it as
  code points: a high surrogate followed by a low surrogate is one code point above
  U+FFFF, and every other surrogate becomes U+FFFD.
\<close>

type_synonym codeunit = "16 word"

fun toScalarValues :: "codeunit list \<Rightarrow> nat list" where
  "toScalarValues [] = []"
| "toScalarValues (c # rest) =
     (if unat c < 0xD800 \<or> 0xDFFF < unat c then unat c # toScalarValues rest
      else if 0xDC00 \<le> unat c then 0xFFFD # toScalarValues rest
      else (case rest of
              [] \<Rightarrow> [0xFFFD]
            | d # rest' \<Rightarrow>
                if 0xDC00 \<le> unat d \<and> unat d \<le> 0xDFFF
                then (0x10000 + push_bit 10 (unat c - 0xD800) + (unat d - 0xDC00))
                       # toScalarValues rest'
                else 0xFFFD # toScalarValues rest))"

text \<open>
  The UTF-8 encoder: a code point up to U+007F is one byte; otherwise \<open>count\<close> is 1, 2 or
  3 and \<open>offset\<close> is 0xC0, 0xE0 or 0xF0, the first byte is
  \<open>(cp >> (6 * count)) + offset\<close>, and the following bytes are
  \<open>0x80 | ((cp >> (6 * (count - 1))) & 0x3F)\<close> while \<open>count\<close> goes down to 1.
\<close>

definition utf8EncodeCodePoint :: "nat \<Rightarrow> byte list" where
  "utf8EncodeCodePoint cp =
     (if cp \<le> 0x7F then [of_nat cp]
      else
        let count = (if cp \<le> 0x7FF then 1 else if cp \<le> 0xFFFF then 2 else 3);
            offset = (if cp \<le> 0x7FF then 0xC0 else if cp \<le> 0xFFFF then 0xE0 else 0xF0)
        in of_nat (drop_bit (6 * count) cp + offset)
             # map (\<lambda>k. of_nat (0x80 OR (drop_bit (6 * k) cp AND 0x3F))) (rev [0..<count]))"

text \<open>\<open>new TextEncoder().encode(text)\<close>\<close>

definition TextEncoder_encode :: "codeunit list \<Rightarrow> byte list" where
  "TextEncoder_encode text = concat (map utf8EncodeCodePoint (toScalarValues text))"

text \<open>
  The UTF-8 decoder, with errors replaced by U+FFFD (\<open>fatal: false\<close>). Its state is the
  code point under construction, the bytes seen, the bytes needed and the lower and
  upper boundary of the next byte. \<open>leadByte\<close> is what the decoder does with a byte when
  no bytes are needed: emit a code point, start a sequence, or signal an error. A byte
  outside the boundaries while bytes are needed is an error, and the byte is then read
  again with no bytes needed. The input ending while bytes are needed is an error.
\<close>

datatype lead = Emit nat | Continue nat nat nat nat | Error

definition leadByte :: "nat \<Rightarrow> lead" where
  "leadByte b =
     (if b \<le> 0x7F then Emit b
      else if 0xC2 \<le> b \<and> b \<le> 0xDF then Continue (b AND 0x1F) 1 0x80 0xBF
      else if 0xE0 \<le> b \<and> b \<le> 0xEF
        then Continue (b AND 0xF) 2 (if b = 0xE0 then 0xA0 else 0x80) (if b = 0xED then 0x9F else 0xBF)
      else if 0xF0 \<le> b \<and> b \<le> 0xF4
        then Continue (b AND 0x7) 3 (if b = 0xF0 then 0x90 else 0x80) (if b = 0xF4 then 0x8F else 0xBF)
      else Error)"

fun utf8Decode :: "nat \<Rightarrow> nat \<Rightarrow> nat \<Rightarrow> nat \<Rightarrow> nat \<Rightarrow> byte list \<Rightarrow> nat list" where
  "utf8Decode cp seen needed lower upper [] = (if needed \<noteq> 0 then [0xFFFD] else [])"
| "utf8Decode cp seen needed lower upper (byte # rest) =
     (let start = (case leadByte (unat byte) of
                     Emit c \<Rightarrow> c # utf8Decode 0 0 0 0x80 0xBF rest
                   | Continue c n lo up \<Rightarrow> utf8Decode c 0 n lo up rest
                   | Error \<Rightarrow> 0xFFFD # utf8Decode 0 0 0 0x80 0xBF rest)
      in if needed = 0 then start
         else if unat byte < lower \<or> upper < unat byte then 0xFFFD # start
         else
           let cp' = push_bit 6 cp OR (unat byte AND 0x3F)
           in if seen + 1 \<noteq> needed then utf8Decode cp' (seen + 1) needed 0x80 0xBF rest
              else cp' # utf8Decode 0 0 0 0x80 0xBF rest)"

text \<open>A code point as code units of a JavaScript string.\<close>

definition codeUnits :: "nat \<Rightarrow> codeunit list" where
  "codeUnits cp =
     (if cp \<le> 0xFFFF then [of_nat cp]
      else [of_nat ((cp - 0x10000) div 0x400 + 0xD800), of_nat ((cp - 0x10000) mod 0x400 + 0xDC00)])"

text \<open>
  \<open>new TextDecoder('utf-8', { fatal: false }).decode(bytes)\<close>. \<open>ignoreBOM\<close> has its
  default \<open>false\<close>, so a first code point U+FEFF is dropped from the output.
\<close>

definition TextDecoder_decode :: "byte list \<Rightarrow> codeunit list" where
  "TextDecoder_decode bytes =
     (let output = utf8Decode 0 0 0 0x80 0xBF bytes;
          output' = (case output of [] \<Rightarrow> [] | c # rest \<Rightarrow> if c = 0xFEFF then rest else output)
      in concat (map codeUnits output'))"

text \<open>
  A string is well formed when it has no unpaired surrogate, and a scalar value is a
  code point up to U+10FFFF that is not a surrogate. Both are used in the statements
  below only.
\<close>

fun wellFormed :: "codeunit list \<Rightarrow> bool" where
  "wellFormed [] = True"
| "wellFormed (c # rest) =
     (if unat c < 0xD800 \<or> 0xDFFF < unat c then wellFormed rest
      else if 0xDC00 \<le> unat c then False
      else (case rest of
              [] \<Rightarrow> False
            | d # rest' \<Rightarrow> 0xDC00 \<le> unat d \<and> unat d \<le> 0xDFFF \<and> wellFormed rest'))"

definition isScalar :: "nat \<Rightarrow> bool" where
  "isScalar c \<longleftrightarrow> c < 0xD800 \<or> (0xDFFF < c \<and> c \<le> 0x10FFFF)"

subsection \<open>The decoder of one linear bit sequence\<close>

text \<open>
  \<open>tryDecodeLinear\<close>: every \<open>return null\<close> is a \<open>None\<close>, and the string returned is
  the \<open>TextDecoder\<close> output for the bytes \<open>msg\<close>. Nothing in the \<open>try\<close> block throws; the
  \<open>TextDecoder\<close> is not fatal.
\<close>

definition tryDecodeLinear :: "nat list \<Rightarrow> codeunit list option" where
  "tryDecodeLinear linear =
     (let i = length START_PATTERN_BITS in
      if length linear < i + HEADER_BITS then None
      else
        let hdrBits = array_slice linear i (i + HEADER_BITS);
            hdr = bitsToBytes hdrBits
        in if length hdr \<noteq> 7 then None
           else
             let version = hdr ! 0;
                 eccLevel = hdr ! 1;
                 payloadLen = push_bit 8 (unat (hdr ! 2)) OR unat (hdr ! 3);
                 eccLen = push_bit 8 (unat (hdr ! 4)) OR unat (hdr ! 5);
                 checksumVal = unat (hdr ! 6)
             in if checksum8 (take 6 hdr) \<noteq> checksumVal then None
                else if payloadLen \<le> 0 then None
                else
                  let capBytes = capacityDataBits div 8
                  in if int (payloadLen + eccLen) > capBytes then None
                     else
                       let dataStart = i + HEADER_BITS;
                           needBits = (payloadLen + eccLen) * 8
                       in if dataStart + needBits > length linear then None
                          else
                            let codewordBits = array_slice linear dataStart (dataStart + needBits);
                                codeword = map unat (bitsToBytes codewordBits)
                            in (case rsDecodeSimple codeword (int eccLen) of
                                  None \<Rightarrow> None
                                | Some decoded \<Rightarrow>
                                    Some (TextDecoder_decode
                                            (map of_nat (array_slice decoded 0 payloadLen)))))"

subsection \<open>Inverting a bit\<close>

text \<open>The search over an image inverts a sampled bit, 0 or 1, with \<open>1 - b\<close>
  (\<open>bits.map(b => 1 - b)\<close>); the same operation flips one bit of a bit sequence.\<close>

definition flipBit :: "nat \<Rightarrow> nat" where
  "flipBit b = 1 - b"

subsection \<open>The redundancy bytes as the specification words them\<close>

text \<open>
  The specification describes \<open>appendRedundancy(payload, n)\<close> as the payload followed by
  \<open>n\<close> extra bytes, byte \<open>i\<close> being the XOR over all payload bytes of the byte times
  \<open>i + 1\<close>, masked to 8 bits. \<open>redundancyByte\<close> and \<open>appendRedundancy\<close> follow these
  words; \<open>simpleRS\<close> above follows the code.
\<close>

definition redundancyByte :: "byte list \<Rightarrow> nat \<Rightarrow> byte" where
  "redundancyByte payload i =
     of_nat (foldr (\<lambda>b acc. (unat b * (i + 1)) XOR acc) payload 0 AND 255)"

definition appendRedundancy :: "byte list \<Rightarrow> nat \<Rightarrow> byte list" where
  "appendRedundancy payload n = payload @ map (redundancyByte payload) [0..<n]"

section \<open>Basic facts\<close>

lemma length_START_PATTERN_BITS: "length START_PATTERN_BITS = 32"
  unfolding START_PATTERN_BITS_def by code_simp

lemma HEADER_BITS_eq: "HEADER_BITS = 56"
  by (simp add: HEADER_BITS_def HEADER_BYTES_def)

lemma capacityBits_eq: "capacityBits = 1344"
  by (simp add: capacityBits_def SECTORS_def)

lemma capacityDataBits_eq: "capacityDataBits = 1256"
  by (simp add: capacityDataBits_def capacityBits_eq length_START_PATTERN_BITS HEADER_BITS_eq)

lemma eccBytes_cases:
  "eccBytes lvl = (if lvl = 0 then 8 else if lvl = 1 then 16 else if lvl = 2 then 32
                   else if lvl = 3 then 64 else 32)"
  by (simp add: eccBytes_def eccMap_def)

lemma maxPayloadBytes_cases:
  "maxPayloadBytes lvl = (if lvl = 0 then 149 else if lvl = 1 then 141 else if lvl = 2 then 125
                          else if lvl = 3 then 93 else 125)"
  by (simp add: maxPayloadBytes_def eccBytes_cases capacityDataBits_eq)

lemma length_array_slice: "length (array_slice xs a b) = min (b - a) (length xs - a)"
  by (simp add: array_slice_def)

lemma eccBytes_lt: "eccBytes lvl < 65536"
  by (simp add: eccBytes_cases)

lemma maxPayloadBytes_le: "maxPayloadBytes lvl \<le> 149"
  by (simp add: maxPayloadBytes_cases)

lemma payload_plus_ecc: "maxPayloadBytes lvl + int (eccBytes lvl) = 157"
  by (simp add: maxPayloadBytes_cases eccBytes_cases)

lemma maxPayloadBytes_nat: "nat (maxPayloadBytes lvl) + eccBytes lvl = 157"
  using payload_plus_ecc [of lvl] by (simp add: maxPayloadBytes_cases eccBytes_cases)

lemma length_header: "length (header lvl n e) = 7"
  by (simp add: header_def Let_def)

lemma header_explicit:
  "header lvl n e =
     [3, of_int lvl, of_nat (drop_bit 8 n AND 255), of_nat (n AND 255),
      of_nat (drop_bit 8 e AND 255), of_nat (e AND 255),
      of_nat (checksum8 [3, of_int lvl, of_nat (drop_bit 8 n AND 255), of_nat (n AND 255),
                          of_nat (drop_bit 8 e AND 255), of_nat (e AND 255)])]"
  by (simp add: header_def Let_def)

section \<open>Bits and bytes\<close>

text \<open>One byte is rebuilt from its eight bits, most significant bit first.\<close>

lemma upt8: "[0..<8] = [0, 1, 2, 3, 4, 5, 6, 7]"
  by (simp add: upt_rec)

lemma shift_or_bit: "x \<le> 1 \<Longrightarrow> push_bit 1 (a :: nat) OR x = 2 * a + x"
proof -
  assume "x \<le> 1"
  then consider "x = 0" | "x = 1" by linarith
  then show ?thesis
    by cases (simp_all add: or_Suc_0_eq)
qed

lemma halve_step: "2 * (n div (2 * k)) + n div k mod 2 = (n div k :: nat)"
proof -
  have "n div (2 * k) = n div k div 2"
    by (simp add: div_mult2_eq mult.commute)
  then show ?thesis
    by simp
qed

lemma horner8:
  assumes "n < (256 :: nat)"
  shows "2 * (2 * (2 * (2 * (2 * (2 * (2 * (n div 128 mod 2) + n div 64 mod 2) + n div 32 mod 2)
           + n div 16 mod 2) + n div 8 mod 2) + n div 4 mod 2) + n div 2 mod 2) + n mod 2 = n"
proof -
  have s7: "n div 128 mod 2 = n div 128"
    using assms by simp
  have s6: "2 * (n div 128) + n div 64 mod 2 = n div 64"
    using halve_step [of n 64] by simp
  have s5: "2 * (n div 64) + n div 32 mod 2 = n div 32"
    using halve_step [of n 32] by simp
  have s4: "2 * (n div 32) + n div 16 mod 2 = n div 16"
    using halve_step [of n 16] by simp
  have s3: "2 * (n div 16) + n div 8 mod 2 = n div 8"
    using halve_step [of n 8] by simp
  have s2: "2 * (n div 8) + n div 4 mod 2 = n div 4"
    using halve_step [of n 4] by simp
  have s1: "2 * (n div 4) + n div 2 mod 2 = n div 2"
    using halve_step [of n 2] by simp
  have s0: "2 * (n div 2) + n mod 2 = n"
    by simp
  show ?thesis
    by (simp only: s7 s6 s5 s4 s3 s2 s1 s0)
qed

lemma horner8_pow:
  assumes "n < (256 :: nat)"
  shows "2 * (2 * (2 * (2 * (2 * (2 * (2 * (2 * 0 + n div 2 ^ 7 mod 2) + n div 2 ^ 6 mod 2)
           + n div 2 ^ 5 mod 2) + n div 2 ^ 4 mod 2) + n div 2 ^ 3 mod 2) + n div 2 ^ 2 mod 2)
           + n div 2 ^ 1 mod 2) + n div 2 ^ 0 mod 2 = n"
  using horner8 [OF assms] by simp

lemma bit_of_byte: "unat (drop_bit i (b :: byte) AND 1) = unat b div 2 ^ i mod 2"
proof -
  have "unat (drop_bit i b AND 1) = unat (drop_bit i b) mod 2"
    by (simp only: and_one_eq unat_mod) simp
  also have "unat (drop_bit i b) = drop_bit i (unat b)"
    by (rule unat_drop_bit_eq)
  also have "drop_bit i (unat b) = unat b div 2 ^ i"
    by (rule drop_bit_eq_div)
  finally show ?thesis .
qed

lemma bit_of_byte_le: "unat (drop_bit i (b :: byte) AND 1) \<le> 1"
  by (simp add: bit_of_byte)

lemma byteAt_Cons8:
  assumes "x7 \<le> 1" "x6 \<le> 1" "x5 \<le> 1" "x4 \<le> 1" "x3 \<le> 1" "x2 \<le> 1" "x1 \<le> 1" "x0 \<le> 1"
  shows "byteAt (x7 # x6 # x5 # x4 # x3 # x2 # x1 # x0 # rest) =
     of_nat (2 * (2 * (2 * (2 * (2 * (2 * (2 * (2 * 0 + x7) + x6) + x5) + x4) + x3) + x2) + x1) + x0)"
proof -
  let ?L = "x7 # x6 # x5 # x4 # x3 # x2 # x1 # x0 # rest"
  have n: "(if 0 < length ?L then ?L ! 0 else 0) = x7"
    "(if 1 < length ?L then ?L ! 1 else 0) = x6"
    "(if 2 < length ?L then ?L ! 2 else 0) = x5"
    "(if 3 < length ?L then ?L ! 3 else 0) = x4"
    "(if 4 < length ?L then ?L ! 4 else 0) = x3"
    "(if 5 < length ?L then ?L ! 5 else 0) = x2"
    "(if 6 < length ?L then ?L ! 6 else 0) = x1"
    "(if 7 < length ?L then ?L ! 7 else 0) = x0"
    by simp_all
  show ?thesis
    unfolding byteAt_def upt8 foldl.simps n
    by (simp only: shift_or_bit assms)
qed

lemma byteAt_bits8: "byteAt (bits8 b @ rest) = b"
proof -
  have lt: "unat b < 256"
    using unsigned_less [of b] by simp
  have m: "k mod 2 \<le> (1::nat)" for k
    by simp
  have "byteAt (bits8 b @ rest) = of_nat (unat b)"
    unfolding bits8_def list.map append.simps
    by (simp only: bit_of_byte byteAt_Cons8 [OF m m m m m m m m] horner8_pow [OF lt])
  then show ?thesis by simp
qed

lemma length_bits8: "length (bits8 b) = 8"
  by (simp add: bits8_def)

lemma bytesToBits_Nil: "bytesToBits [] = []"
  by (simp add: bytesToBits_def)

lemma bytesToBits_Cons: "bytesToBits (b # bs) = bits8 b @ bytesToBits bs"
  by (simp add: bytesToBits_def)

lemma bytesToBits_append: "bytesToBits (as @ bs) = bytesToBits as @ bytesToBits bs"
  by (simp add: bytesToBits_def)

lemma length_bytesToBits: "length (bytesToBits bs) = 8 * length bs"
  by (induction bs) (simp_all add: bytesToBits_Nil bytesToBits_Cons length_bits8)

lemma bitsToBytes_nonempty: "xs \<noteq> [] \<Longrightarrow> bitsToBytes xs = byteAt xs # bitsToBytes (drop 8 xs)"
  by (cases xs) simp_all

lemma bitsToBytes_bits8: "bitsToBytes (bits8 b @ rest) = b # bitsToBytes rest"
proof -
  have "bits8 b @ rest \<noteq> []"
    using length_bits8 [of b] by auto
  then have "bitsToBytes (bits8 b @ rest)
               = byteAt (bits8 b @ rest) # bitsToBytes (drop 8 (bits8 b @ rest))"
    by (rule bitsToBytes_nonempty)
  then show ?thesis
    by (simp add: byteAt_bits8 length_bits8)
qed

lemma bitsToBytes_bytesToBits_append:
  "bitsToBytes (bytesToBits bs @ rest) = bs @ bitsToBytes rest"
  by (induction bs) (simp_all add: bytesToBits_Nil bytesToBits_Cons bitsToBytes_bits8)

lemma bitsToBytes_bytesToBits: "bitsToBytes (bytesToBits bs) = bs"
  using bitsToBytes_bytesToBits_append [of bs "[]"] by simp

lemma take_bytesToBits: "take (8 * n) (bytesToBits bs) = bytesToBits (take n bs)"
proof (induction bs arbitrary: n)
  case Nil
  then show ?case by (simp add: bytesToBits_Nil)
next
  case (Cons b bs)
  show ?case
  proof (cases n)
    case 0
    then show ?thesis by (simp add: bytesToBits_Nil)
  next
    case (Suc m)
    then show ?thesis
      using Cons.IH [of m] by (simp add: bytesToBits_Cons length_bits8)
  qed
qed

text \<open>Flipping one bit of the bits of a byte sequence flips one bit of one byte.\<close>

lemma bit_of_byte_bool: "unat (drop_bit i (b :: byte) AND 1) = of_bool (bit b i)"
proof -
  have "bit b i = bit (unat b) i"
    by (simp add: bit_unsigned_iff)
  also have "\<dots> = odd (unat b div 2 ^ i)"
    by (rule bit_iff_odd)
  finally show ?thesis
    by (simp add: bit_of_byte mod_2_eq_odd)
qed

lemma bits8_bool:
  "bits8 b = [of_bool (bit b 7), of_bool (bit b 6), of_bool (bit b 5), of_bool (bit b 4),
              of_bool (bit b 3), of_bool (bit b 2), of_bool (bit b 1), of_bool (bit b 0)]"
  unfolding bits8_def list.map bit_of_byte_bool by (rule refl)

lemma bit_flip: "k < 8 \<Longrightarrow> bit ((b :: byte) XOR 2 ^ k) i = (if i = k then \<not> bit b i else bit b i)"
  by (auto simp add: bit_simps)

lemma nth_bits8:
  assumes "j < 8"
  shows "bits8 b ! j = of_bool (bit b (7 - j))"
proof -
  from assms consider "j = 0" | "j = 1" | "j = 2" | "j = 3" | "j = 4" | "j = 5" | "j = 6" | "j = 7"
    by linarith
  then show ?thesis
    by cases (simp_all add: bits8_bool)
qed

lemma bits8_flip:
  assumes "r < 8"
  shows "(bits8 b)[r := flipBit (bits8 b ! r)] = bits8 (b XOR 2 ^ (7 - r))"
proof (rule nth_equalityI)
  show "length ((bits8 b)[r := flipBit (bits8 b ! r)]) = length (bits8 (b XOR 2 ^ (7 - r)))"
    by (simp add: length_bits8)
next
  fix j
  assume "j < length ((bits8 b)[r := flipBit (bits8 b ! r)])"
  then have j: "j < 8"
    by (simp add: length_bits8)
  have k: "7 - r < 8"
    by simp
  show "(bits8 b)[r := flipBit (bits8 b ! r)] ! j = bits8 (b XOR 2 ^ (7 - r)) ! j"
  proof (cases "j = r")
    case True
    then show ?thesis
      using j by (simp add: nth_bits8 length_bits8 bit_flip [OF k] flipBit_def)
  next
    case False
    then have "7 - j \<noteq> 7 - r"
      using j assms by linarith
    then show ?thesis
      using j False by (simp add: nth_bits8 length_bits8 bit_flip [OF k])
  qed
qed

lemma bytesToBits_flip:
  assumes "q < 8 * length hs"
  shows "(bytesToBits hs)[q := flipBit (bytesToBits hs ! q)]
           = bytesToBits (hs[q div 8 := hs ! (q div 8) XOR 2 ^ (7 - q mod 8)])"
  using assms
proof (induction hs arbitrary: q)
  case Nil
  then show ?case by simp
next
  case (Cons h hs)
  show ?case
  proof (cases "q < 8")
    case True
    then show ?thesis
      by (simp add: bytesToBits_Cons list_update_append nth_append length_bits8 bits8_flip)
  next
    case False
    then obtain q' where q': "q = q' + 8"
      by (metis le_add_diff_inverse2 not_less)
    then have "q' < 8 * length hs"
      using Cons.prems by simp
    have d: "(q' + 8) div 8 = Suc (q' div 8)" "(q' + 8) mod 8 = q' mod 8"
      by simp_all
    from Cons.IH [OF \<open>q' < 8 * length hs\<close>] show ?thesis
      unfolding q' d
      by (simp add: bytesToBits_Cons list_update_append nth_append length_bits8)
  qed
qed

section \<open>The checksum and the 16-bit fields\<close>

lemma and_255: "(x :: nat) AND 255 = take_bit 8 x"
proof -
  have "(255 :: nat) = mask 8"
    by (simp add: mask_eq_exp_minus_1)
  then show ?thesis
    by (simp add: take_bit_eq_mask)
qed

lemma checksum8_lt: "checksum8 bb < 256"
  by (simp add: checksum8_def and_255 take_bit_eq_mod)

lemma unat_low_byte: "unat (of_nat (x AND 255) :: byte) = take_bit 8 x"
  by (simp add: and_255 unat_of_nat take_bit_eq_mod)

lemma join16: "push_bit 8 (take_bit 8 (drop_bit 8 n)) OR take_bit 8 n = take_bit 16 (n :: nat)"
  by (rule bit_eqI) (auto simp add: bit_simps)

lemma be16:
  assumes "n < 65536"
  shows "push_bit 8 (unat (of_nat (drop_bit 8 n AND 255) :: byte)) OR unat (of_nat (n AND 255) :: byte)
           = n"
proof -
  have "take_bit 16 n = n"
    using assms by (simp add: take_bit_nat_eq_self)
  then show ?thesis
    by (simp only: unat_low_byte join16)
qed

lemma stored_checksum: "unat (of_nat (checksum8 bb) :: byte) = checksum8 bb"
  using checksum8_lt [of bb] by (simp add: unat_of_nat)

lemma header_checksum: "unat (header lvl n e ! 6) = checksum8 (take 6 (header lvl n e))"
  by (simp add: header_explicit stored_checksum)

text \<open>The checksum is the sum of the bytes in 8-bit arithmetic, so changing one byte
  changes it.\<close>

lemma foldl_add_unat:
  "foldl (\<lambda>sum byte. sum + unat byte) a (bb :: byte list) = a + sum_list (map unat bb)"
  by (induction bb arbitrary: a) simp_all

lemma unat_sum_list: "unat (sum_list (bb :: byte list)) = sum_list (map unat bb) mod 256"
proof (induction bb)
  case Nil
  then show ?case by simp
next
  case (Cons b bb)
  have "unat (b + sum_list bb) = (unat b + unat (sum_list bb)) mod 256"
    by (simp add: unat_word_ariths)
  also have "\<dots> = (unat b + sum_list (map unat bb)) mod 256"
    by (simp only: Cons.IH mod_add_right_eq)
  finally show ?case by simp
qed

lemma checksum8_sum_list: "checksum8 bb = unat (sum_list bb)"
  by (simp add: checksum8_def foldl_add_unat and_255 take_bit_eq_mod unat_sum_list)

lemma sum_list_update_byte:
  "k < length xs \<Longrightarrow> sum_list (xs[k := y]) = sum_list xs + (y - xs ! k)" for xs :: "byte list"
proof (induction xs arbitrary: k)
  case Nil
  then show ?case by simp
next
  case (Cons x xs)
  then show ?case
    by (cases k) simp_all
qed

lemma xor_neq_self: "d \<noteq> 0 \<Longrightarrow> x XOR d \<noteq> (x :: byte)"
proof
  assume d: "d \<noteq> 0" and e: "x XOR d = x"
  have "d = x XOR (x XOR d)"
    by (simp flip: xor.assoc)
  also have "\<dots> = 0"
    by (simp only: e) simp
  finally show False
    using d by simp
qed

lemma checksum8_flip:
  assumes "k < length xs" and "d \<noteq> 0"
  shows "checksum8 (xs[k := xs ! k XOR d]) \<noteq> checksum8 xs"
proof
  assume "checksum8 (xs[k := xs ! k XOR d]) = checksum8 xs"
  then have "sum_list (xs[k := xs ! k XOR d]) = sum_list xs"
    by (simp add: checksum8_sum_list word_unat_eq_iff)
  then have "(xs ! k XOR d) - xs ! k = 0"
    using assms(1) by (simp add: sum_list_update_byte)
  then show False
    using xor_neq_self [OF assms(2), of "xs ! k"] by simp
qed

lemma pow2_byte_nonzero: "k < 8 \<Longrightarrow> (2 :: byte) ^ k \<noteq> 0"
proof
  assume k: "k < 8" and z: "(2 :: byte) ^ k = 0"
  have "bit ((2 :: byte) ^ k) k"
    using k by (simp add: bit_simps)
  then show False
    by (simp only: z) simp
qed

section \<open>The redundancy bytes\<close>

lemma foldl_index: "foldl (\<lambda>s j. f s (xs ! j)) a [0..<length xs] = foldl f a xs"
proof (induction xs rule: rev_induct)
  case Nil
  then show ?case by simp
next
  case (snoc x xs)
  have "foldl (\<lambda>s j. f s ((xs @ [x]) ! j)) a [0..<length xs]
          = foldl (\<lambda>s j. f s (xs ! j)) a [0..<length xs]"
    by (rule foldl_cong) (simp_all add: nth_append)
  then show ?case
    using snoc.IH by simp
qed

lemma foldl_xor_foldr:
  "foldl (\<lambda>s b. s XOR g b) (a :: nat) xs = a XOR foldr (\<lambda>b acc. g b XOR acc) xs 0"
  by (induction xs arbitrary: a) (simp_all add: xor.assoc)

lemma simpleRS_inner:
  "foldl (\<lambda>sum j. sum XOR (unat (data ! j) * (i + 1))) (0 :: nat) [0..<length data]
     = foldr (\<lambda>b acc. (unat b * (i + 1)) XOR acc) data 0"
proof -
  have "foldl (\<lambda>sum j. sum XOR (unat (data ! j) * (i + 1))) (0 :: nat) [0..<length data]
          = foldl (\<lambda>sum b. sum XOR (unat b * (i + 1))) 0 data"
    by (rule foldl_index [where f = "\<lambda>sum b. sum XOR (unat b * (i + 1))"])
  also have "\<dots> = 0 XOR foldr (\<lambda>b acc. (unat b * (i + 1)) XOR acc) data 0"
    by (rule foldl_xor_foldr)
  finally show ?thesis by simp
qed

lemma simpleRS_outer:
  "m \<le> length zs \<Longrightarrow>
     foldl (\<lambda>result i. result[length data + i := f i]) (data @ zs) [0..<m]
       = data @ map f [0..<m] @ drop m zs"
proof (induction m)
  case 0
  then show ?case by simp
next
  case (Suc m)
  then have lt: "m < length zs" by simp
  have "foldl (\<lambda>result i. result[length data + i := f i]) (data @ zs) [0..<Suc m]
          = (data @ map f [0..<m] @ drop m zs)[length data + m := f m]"
    using Suc by simp
  also have "\<dots> = data @ map f [0..<m] @ (drop m zs)[0 := f m]"
    by (simp add: list_update_append)
  also have "(drop m zs)[0 := f m] = f m # drop (Suc m) zs"
    using lt by (simp flip: Cons_nth_drop_Suc)
  finally show ?case by simp
qed

lemma simpleRS_unfold:
  "simpleRS payload n = payload @ map (redundancyByte payload) [0..<n]"
proof -
  have "simpleRS payload n
          = foldl (\<lambda>result i. result[length payload + i := redundancyByte payload i])
              (payload @ drop (length payload) (replicate (length payload + n) 0)) [0..<n]"
    unfolding simpleRS_def Let_def simpleRS_inner redundancyByte_def by (rule refl)
  also have "drop (length payload) (replicate (length payload + n) (0 :: byte)) = replicate n 0"
    by simp
  also have "foldl (\<lambda>result i. result[length payload + i := redundancyByte payload i])
              (payload @ replicate n 0) [0..<n]
               = payload @ map (redundancyByte payload) [0..<n] @ drop n (replicate n 0)"
    by (rule simpleRS_outer) simp
  finally show ?thesis
    by simp
qed

lemma length_simpleRS: "length (simpleRS data n) = length data + n"
  by (simp add: simpleRS_unfold)

section \<open>The text codec\<close>

text \<open>Decoding the UTF-8 encoding of scalar values gives them back, and a well-formed
  string that does not start with U+FEFF survives encoding and decoding.\<close>

lemma and_63: "(x :: nat) AND 63 = x mod 64"
proof -
  have "(63 :: nat) = mask 6"
    by (simp add: mask_eq_exp_minus_1)
  then have "x AND 63 = take_bit 6 x"
    by (simp add: take_bit_eq_mask)
  then show ?thesis
    by (simp add: take_bit_eq_mod)
qed

lemma and_31: "(x :: nat) AND 31 = x mod 32"
proof -
  have "(31 :: nat) = mask 5"
    by (simp add: mask_eq_exp_minus_1)
  then have "x AND 31 = take_bit 5 x"
    by (simp add: take_bit_eq_mask)
  then show ?thesis
    by (simp add: take_bit_eq_mod)
qed

lemma and_15: "(x :: nat) AND 15 = x mod 16"
proof -
  have "(15 :: nat) = mask 4"
    by (simp add: mask_eq_exp_minus_1)
  then have "x AND 15 = take_bit 4 x"
    by (simp add: take_bit_eq_mask)
  then show ?thesis
    by (simp add: take_bit_eq_mod)
qed

lemma and_7: "(x :: nat) AND 7 = x mod 8"
proof -
  have "(7 :: nat) = mask 3"
    by (simp add: mask_eq_exp_minus_1)
  then have "x AND 7 = take_bit 3 x"
    by (simp add: take_bit_eq_mask)
  then show ?thesis
    by (simp add: take_bit_eq_mod)
qed

lemma shift6_or:
  assumes "m < 64"
  shows "push_bit 6 (c :: nat) OR m = 64 * c + m"
proof -
  have m: "take_bit 6 m = m"
    using assms by (simp add: take_bit_nat_eq_self)
  have "push_bit 6 c + take_bit 6 m = push_bit 6 c OR take_bit 6 m"
    by (rule disjunctive_add) (auto simp add: bit_simps)
  then show ?thesis
    by (simp add: m push_bit_eq_mult)
qed

lemma or_128:
  assumes "m < 64"
  shows "(128 :: nat) OR m = 128 + m"
  using shift6_or [OF assms, of 2] by simp

lemma unat_byte_of_nat: "x < 256 \<Longrightarrow> unat (of_nat x :: byte) = x"
  by (simp add: unat_of_nat)

lemma cont_byte: "0x80 OR (t AND 0x3F) = 128 + (t :: nat) mod 64"
  by (simp add: and_63 or_128)

lemma rev_upt_1: "rev [0..<1] = [0]"
  by simp

lemma rev_upt_2: "rev [0..<2] = [1, 0]"
  by (simp add: upt_rec)

lemma rev_upt_3: "rev [0..<3] = [2, 1, 0]"
  by (simp add: upt_rec)

lemma enc1: "cp \<le> 0x7F \<Longrightarrow> utf8EncodeCodePoint cp = [of_nat cp]"
  by (simp add: utf8EncodeCodePoint_def)

lemma enc2:
  assumes "0x7F < cp" and "cp \<le> 0x7FF"
  shows "utf8EncodeCodePoint cp = [of_nat (cp div 64 + 192), of_nat (128 + cp mod 64)]"
  using assms unfolding utf8EncodeCodePoint_def Let_def cont_byte
  by (simp add: rev_upt_1 drop_bit_eq_div)

lemma enc3:
  assumes "0x7FF < cp" and "cp \<le> 0xFFFF"
  shows "utf8EncodeCodePoint cp =
           [of_nat (cp div 4096 + 224), of_nat (128 + cp div 64 mod 64), of_nat (128 + cp mod 64)]"
  using assms unfolding utf8EncodeCodePoint_def Let_def cont_byte
  by (simp add: rev_upt_2 drop_bit_eq_div)

lemma enc4:
  assumes "0xFFFF < cp"
  shows "utf8EncodeCodePoint cp =
           [of_nat (cp div 262144 + 240), of_nat (128 + cp div 4096 mod 64),
            of_nat (128 + cp div 64 mod 64), of_nat (128 + cp mod 64)]"
  using assms unfolding utf8EncodeCodePoint_def Let_def cont_byte
  by (simp add: rev_upt_3 drop_bit_eq_div)

lemma decode_lead_emit:
  assumes "leadByte (unat b) = Emit c"
  shows "utf8Decode cp seen 0 lo up (b # rest) = c # utf8Decode 0 0 0 0x80 0xBF rest"
  using assms by (simp add: Let_def)

lemma decode_lead_continue:
  assumes "leadByte (unat b) = Continue c n lo' up'"
  shows "utf8Decode cp seen 0 lo up (b # rest) = utf8Decode c 0 n lo' up' rest"
  using assms by (simp add: Let_def)

lemma decode_continuation:
  assumes "needed \<noteq> 0" and "lo \<le> unat b" and "unat b \<le> up"
  shows "utf8Decode cp seen needed lo up (b # rest) =
           (if seen + 1 \<noteq> needed
            then utf8Decode (push_bit 6 cp OR (unat b AND 0x3F)) (seen + 1) needed 0x80 0xBF rest
            else (push_bit 6 cp OR (unat b AND 0x3F)) # utf8Decode 0 0 0 0x80 0xBF rest)"
  using assms by (simp add: Let_def)

lemma decode_continuation_more:
  assumes "lo \<le> unat b" and "unat b \<le> up" and "s' = seen + 1" and "s' < needed"
  shows "utf8Decode cp seen needed lo up (b # rest) =
           utf8Decode (push_bit 6 cp OR (unat b AND 0x3F)) s' needed 0x80 0xBF rest"
  using assms by (simp add: Let_def)

lemma continuation_value:
  assumes "m < 64"
  shows "push_bit 6 (c :: nat) OR ((128 + m) AND 0x3F) = 64 * c + m"
proof -
  have "(m + 64 * 2) mod 64 = m mod 64"
    by (rule mod_mult_self2)
  then have "(128 + m) mod 64 = m"
    using assms by (simp add: add.commute)
  then show ?thesis
    using assms by (simp only: and_63 shift6_or)
qed

lemma lead1: "b \<le> 0x7F \<Longrightarrow> leadByte b = Emit b"
  by (simp add: leadByte_def)

lemma lead2:
  assumes "2 \<le> h" and "h < 32"
  shows "leadByte (h + 192) = Continue h 1 0x80 0xBF"
proof -
  have "(h + 32 * 6) mod 32 = h mod 32"
    by (rule mod_mult_self2)
  then have "(h + 192) mod 32 = h"
    using assms by simp
  then show ?thesis
    using assms by (simp add: leadByte_def and_31)
qed

lemma lead3:
  assumes "h < 16"
  shows "leadByte (h + 224) =
     Continue h 2 (if h = 0 then 0xA0 else 0x80) (if h = 13 then 0x9F else 0xBF)"
proof -
  have "(h + 16 * 14) mod 16 = h mod 16"
    by (rule mod_mult_self2)
  then have "(h + 224) mod 16 = h"
    using assms by simp
  then show ?thesis
    using assms by (simp add: leadByte_def and_15)
qed

lemma lead4:
  assumes "h \<le> 4"
  shows "leadByte (h + 240) =
     Continue h 3 (if h = 0 then 0x90 else 0x80) (if h = 4 then 0x8F else 0xBF)"
proof -
  have "(h + 8 * 30) mod 8 = h mod 8"
    by (rule mod_mult_self2)
  then have "(h + 240) mod 8 = h"
    using assms by simp
  then show ?thesis
    using assms by (simp add: leadByte_def and_7)
qed

lemma div_4096: "(c :: nat) div 4096 = c div 64 div 64"
  by (simp add: div_mult2_eq [symmetric])

lemma div_262144: "(c :: nat) div 262144 = c div 64 div 64 div 64"
  by (simp add: div_mult2_eq [symmetric])

lemma split64: "64 * (n div 64) + n mod 64 = (n :: nat)"
  by simp

lemma decode_encode1:
  assumes "c \<le> 0x7F"
  shows "utf8Decode 0 0 0 0x80 0xBF (utf8EncodeCodePoint c @ rest) = c # utf8Decode 0 0 0 0x80 0xBF rest"
proof -
  have u: "unat (of_nat c :: byte) = c"
    using assms by (simp add: unat_byte_of_nat)
  have "leadByte (unat (of_nat c :: byte)) = Emit c"
    unfolding u using assms by (rule lead1)
  then show ?thesis
    by (simp only: enc1 [OF assms] append_Cons append_Nil decode_lead_emit)
qed

lemma decode2:
  assumes "unat b1 = h + 192" and "2 \<le> h" and "h < 32"
    and "unat b2 = 128 + m" and "m < 64"
  shows "utf8Decode 0 0 0 0x80 0xBF (b1 # b2 # rest) = (64 * h + m) # utf8Decode 0 0 0 0x80 0xBF rest"
proof -
  have l: "leadByte (unat b1) = Continue h 1 0x80 0xBF"
    unfolding assms(1) using assms(2,3) by (rule lead2)
  have "utf8Decode 0 0 0 0x80 0xBF (b1 # b2 # rest) = utf8Decode h 0 1 0x80 0xBF (b2 # rest)"
    by (rule decode_lead_continue [OF l])
  also have "\<dots> = (64 * h + m) # utf8Decode 0 0 0 0x80 0xBF rest"
    using assms(5)
    by (simp add: decode_continuation assms(4) continuation_value del: utf8Decode.simps)
  finally show ?thesis .
qed

lemma decode3:
  assumes "unat b1 = h + 224" and "h < 16"
    and "unat b2 = 128 + m1" and "m1 < 64" and "h = 0 \<longrightarrow> 32 \<le> m1" and "h = 13 \<longrightarrow> m1 < 32"
    and "unat b3 = 128 + m0" and "m0 < 64"
  shows "utf8Decode 0 0 0 0x80 0xBF (b1 # b2 # b3 # rest)
           = (64 * (64 * h + m1) + m0) # utf8Decode 0 0 0 0x80 0xBF rest"
proof -
  let ?lo = "if h = 0 then 0xA0 else (0x80 :: nat)" and ?up = "if h = 13 then 0x9F else (0xBF :: nat)"
  have l: "leadByte (unat b1) = Continue h 2 ?lo ?up"
    unfolding assms(1) using assms(2) by (rule lead3)
  have r: "?lo \<le> unat b2" "unat b2 \<le> ?up"
    using assms(3-6) by auto
  have "utf8Decode 0 0 0 0x80 0xBF (b1 # b2 # b3 # rest) = utf8Decode h 0 2 ?lo ?up (b2 # b3 # rest)"
    by (rule decode_lead_continue [OF l])
  also have "\<dots> = utf8Decode (64 * h + m1) 1 2 0x80 0xBF (b3 # rest)"
    using decode_continuation [OF _ r, of 2 h 0 "b3 # rest"] assms(4)
    by (simp add: assms(3) continuation_value del: utf8Decode.simps)
  also have "\<dots> = (64 * (64 * h + m1) + m0) # utf8Decode 0 0 0 0x80 0xBF rest"
    using assms(8)
    by (simp add: decode_continuation assms(7) continuation_value del: utf8Decode.simps)
  finally show ?thesis .
qed

lemma decode4:
  assumes "unat b1 = h + 240" and "h \<le> 4"
    and "unat b2 = 128 + m2" and "m2 < 64" and "h = 0 \<longrightarrow> 16 \<le> m2" and "h = 4 \<longrightarrow> m2 < 16"
    and "unat b3 = 128 + m1" and "m1 < 64"
    and "unat b4 = 128 + m0" and "m0 < 64"
  shows "utf8Decode 0 0 0 0x80 0xBF (b1 # b2 # b3 # b4 # rest)
           = (64 * (64 * (64 * h + m2) + m1) + m0) # utf8Decode 0 0 0 0x80 0xBF rest"
proof -
  let ?lo = "if h = 0 then 0x90 else (0x80 :: nat)" and ?up = "if h = 4 then 0x8F else (0xBF :: nat)"
  have l: "leadByte (unat b1) = Continue h 3 ?lo ?up"
    unfolding assms(1) using assms(2) by (rule lead4)
  have r: "?lo \<le> unat b2" "unat b2 \<le> ?up"
    using assms(3-6) by auto
  have "utf8Decode 0 0 0 0x80 0xBF (b1 # b2 # b3 # b4 # rest)
          = utf8Decode h 0 3 ?lo ?up (b2 # b3 # b4 # rest)"
    by (rule decode_lead_continue [OF l])
  also have "\<dots> = utf8Decode (64 * h + m2) 1 3 0x80 0xBF (b3 # b4 # rest)"
    using decode_continuation [OF _ r, of 3 h 0 "b3 # b4 # rest"] assms(4)
    by (simp add: assms(3) continuation_value del: utf8Decode.simps)
  also have "\<dots> = utf8Decode (push_bit 6 (64 * h + m2) OR (unat b3 AND 0x3F)) 2 3 0x80 0xBF
                        (b4 # rest)"
    using assms(8) by (intro decode_continuation_more) (simp_all add: assms(7))
  also have "push_bit 6 (64 * h + m2) OR (unat b3 AND 0x3F) = 64 * (64 * h + m2) + m1"
    unfolding assms(7) by (rule continuation_value [OF assms(8)])
  also have "utf8Decode (64 * (64 * h + m2) + m1) 2 3 0x80 0xBF (b4 # rest)
               = (64 * (64 * (64 * h + m2) + m1) + m0) # utf8Decode 0 0 0 0x80 0xBF rest"
    using assms(10)
    by (simp add: decode_continuation assms(9) continuation_value del: utf8Decode.simps)
  finally show ?thesis .
qed

lemma decode_encode2:
  assumes "0x7F < c" and "c \<le> 0x7FF"
  shows "utf8Decode 0 0 0 0x80 0xBF (utf8EncodeCodePoint c @ rest) = c # utf8Decode 0 0 0 0x80 0xBF rest"
proof -
  let ?h = "c div 64" and ?m = "c mod 64"
  have c: "64 * ?h + ?m = c"
    by (rule split64)
  have m: "?m < 64"
    by simp
  have h: "2 \<le> ?h" "?h < 32"
    using assms c m by linarith+
  have lt: "?h + 192 < 256" "128 + ?m < 256"
    using h m by simp_all
  have u: "unat (of_nat (?h + 192) :: byte) = ?h + 192" "unat (of_nat (128 + ?m) :: byte) = 128 + ?m"
    by (simp_all only: unat_byte_of_nat [OF lt(1)] unat_byte_of_nat [OF lt(2)])
  show ?thesis
    unfolding enc2 [OF assms] append_Cons append_Nil decode2 [OF u(1) h u(2) m] c ..
qed

lemma decode_encode3:
  assumes "0x7FF < c" and "c \<le> 0xFFFF" and "isScalar c"
  shows "utf8Decode 0 0 0 0x80 0xBF (utf8EncodeCodePoint c @ rest) = c # utf8Decode 0 0 0 0x80 0xBF rest"
proof -
  let ?a = "c div 64" and ?m0 = "c mod 64"
  let ?h = "c div 4096" and ?m1 = "c div 64 mod 64"
  have c: "64 * ?a + ?m0 = c"
    by (rule split64)
  have a: "64 * ?h + ?m1 = ?a"
    unfolding div_4096 by (rule split64)
  have m: "?m0 < 64" "?m1 < 64"
    by simp_all
  have s: "c < 0xD800 \<or> 0xDFFF < c"
    using assms(3) by (auto simp add: isScalar_def)
  have h: "?h < 16"
    using assms c a m by linarith
  have lo: "?h = 0 \<longrightarrow> 32 \<le> ?m1"
    using assms c a m by linarith
  have up: "?h = 13 \<longrightarrow> ?m1 < 32"
    using s c a m by linarith
  have lt: "?h + 224 < 256" "128 + ?m1 < 256" "128 + ?m0 < 256"
    using h m by simp_all
  have u: "unat (of_nat (?h + 224) :: byte) = ?h + 224"
    "unat (of_nat (128 + ?m1) :: byte) = 128 + ?m1"
    "unat (of_nat (128 + ?m0) :: byte) = 128 + ?m0"
    by (simp_all only: unat_byte_of_nat [OF lt(1)] unat_byte_of_nat [OF lt(2)] unat_byte_of_nat [OF lt(3)])
  have v: "64 * (64 * ?h + ?m1) + ?m0 = c"
    unfolding a by (rule c)
  show ?thesis
    unfolding enc3 [OF assms(1,2)] append_Cons append_Nil
      decode3 [OF u(1) h u(2) m(2) lo up u(3) m(1)] v ..
qed

lemma decode_encode4:
  assumes "0xFFFF < c" and "c \<le> 0x10FFFF"
  shows "utf8Decode 0 0 0 0x80 0xBF (utf8EncodeCodePoint c @ rest) = c # utf8Decode 0 0 0 0x80 0xBF rest"
proof -
  let ?a = "c div 64" and ?m0 = "c mod 64"
  let ?b = "c div 4096" and ?m1 = "c div 64 mod 64"
  let ?h = "c div 262144" and ?m2 = "c div 4096 mod 64"
  have c: "64 * ?a + ?m0 = c"
    by (rule split64)
  have a: "64 * ?b + ?m1 = ?a"
    unfolding div_4096 by (rule split64)
  have b: "64 * ?h + ?m2 = ?b"
    unfolding div_4096 div_262144 by (rule split64)
  have m: "?m0 < 64" "?m1 < 64" "?m2 < 64"
    by simp_all
  have h: "?h \<le> 4"
    using assms c a b m by linarith
  have lo: "?h = 0 \<longrightarrow> 16 \<le> ?m2"
    using assms c a b m by linarith
  have up: "?h = 4 \<longrightarrow> ?m2 < 16"
    using assms c a b m by linarith
  have lt: "?h + 240 < 256" "128 + ?m2 < 256" "128 + ?m1 < 256" "128 + ?m0 < 256"
    using h m by simp_all
  have u: "unat (of_nat (?h + 240) :: byte) = ?h + 240"
    "unat (of_nat (128 + ?m2) :: byte) = 128 + ?m2"
    "unat (of_nat (128 + ?m1) :: byte) = 128 + ?m1"
    "unat (of_nat (128 + ?m0) :: byte) = 128 + ?m0"
    by (simp_all only: unat_byte_of_nat [OF lt(1)] unat_byte_of_nat [OF lt(2)] unat_byte_of_nat [OF lt(3)] unat_byte_of_nat [OF lt(4)])
  have v: "64 * (64 * (64 * ?h + ?m2) + ?m1) + ?m0 = c"
    unfolding b a by (rule c)
  show ?thesis
    unfolding enc4 [OF assms(1)] append_Cons append_Nil
      decode4 [OF u(1) h u(2) m(3) lo up u(3) m(2) u(4) m(1)] v ..
qed

lemma decode_encode_scalar:
  assumes "isScalar c"
  shows "utf8Decode 0 0 0 0x80 0xBF (utf8EncodeCodePoint c @ rest) = c # utf8Decode 0 0 0 0x80 0xBF rest"
proof -
  have le: "c \<le> 0x10FFFF"
    using assms by (auto simp add: isScalar_def)
  consider "c \<le> 0x7F" | "0x7F < c" "c \<le> 0x7FF" | "0x7FF < c" "c \<le> 0xFFFF" | "0xFFFF < c"
    by linarith
  then show ?thesis
  proof cases
    case 1
    then show ?thesis by (rule decode_encode1)
  next
    case 2
    then show ?thesis by (rule decode_encode2)
  next
    case 3
    then show ?thesis using assms by (rule decode_encode3)
  next
    case 4
    then show ?thesis using le by (rule decode_encode4)
  qed
qed

lemma decode_encode_list:
  assumes "list_all isScalar cs"
  shows "utf8Decode 0 0 0 0x80 0xBF (concat (map utf8EncodeCodePoint cs)) = cs"
  using assms by (induction cs) (simp_all add: decode_encode_scalar del: utf8Decode.simps(2))

lemma unat_codeunit_lt: "unat (c :: codeunit) < 65536"
  using unsigned_less [of c] by simp

lemma toScalarValues_plain:
  "unat c < 0xD800 \<or> 0xDFFF < unat c \<Longrightarrow> toScalarValues (c # rest) = unat c # toScalarValues rest"
  by simp

lemma toScalarValues_low:
  "\<not> (unat c < 0xD800 \<or> 0xDFFF < unat c) \<Longrightarrow> 0xDC00 \<le> unat c
     \<Longrightarrow> toScalarValues (c # rest) = 0xFFFD # toScalarValues rest"
  by simp

lemma toScalarValues_high_end:
  "\<not> (unat c < 0xD800 \<or> 0xDFFF < unat c) \<Longrightarrow> \<not> 0xDC00 \<le> unat c
     \<Longrightarrow> toScalarValues [c] = [0xFFFD]"
  by simp

lemma toScalarValues_pair:
  "\<not> (unat c < 0xD800 \<or> 0xDFFF < unat c) \<Longrightarrow> \<not> 0xDC00 \<le> unat c
     \<Longrightarrow> 0xDC00 \<le> unat d \<and> unat d \<le> 0xDFFF
     \<Longrightarrow> toScalarValues (c # d # rest) =
           (0x10000 + push_bit 10 (unat c - 0xD800) + (unat d - 0xDC00)) # toScalarValues rest"
  by simp

lemma toScalarValues_unpaired:
  "\<not> (unat c < 0xD800 \<or> 0xDFFF < unat c) \<Longrightarrow> \<not> 0xDC00 \<le> unat c
     \<Longrightarrow> \<not> (0xDC00 \<le> unat d \<and> unat d \<le> 0xDFFF)
     \<Longrightarrow> toScalarValues (c # d # rest) = 0xFFFD # toScalarValues (d # rest)"
  by (simp del: toScalarValues.simps add: toScalarValues.simps(2) [of c])

lemma isScalar_pair:
  assumes "\<not> (unat (c :: codeunit) < 0xD800 \<or> 0xDFFF < unat c)" and "\<not> 0xDC00 \<le> unat c"
    and "0xDC00 \<le> unat (d :: codeunit) \<and> unat d \<le> 0xDFFF"
  shows "isScalar (0x10000 + push_bit 10 (unat c - 0xD800) + (unat d - 0xDC00))"
proof -
  have "unat c - 0xD800 \<le> 1023" and "unat d - 0xDC00 \<le> 1023"
    using assms by linarith+
  then have "0x10000 + 1024 * (unat c - 0xD800) + (unat d - 0xDC00) \<le> 0x10FFFF"
    by linarith
  then show ?thesis
    by (simp add: isScalar_def push_bit_eq_mult)
qed

lemma isScalar_FFFD: "isScalar 0xFFFD"
  by (simp add: isScalar_def)

lemma isScalar_toScalarValues: "list_all isScalar (toScalarValues s)"
proof (induction s rule: toScalarValues.induct)
  case 1
  then show ?case by simp
next
  case (2 c rest)
  have lt: "unat c < 65536"
    by (rule unat_codeunit_lt)
  show ?case
  proof (cases "unat c < 0xD800 \<or> 0xDFFF < unat c")
    case True
    then have "isScalar (unat c)"
      using lt by (auto simp add: isScalar_def)
    then show ?thesis
      using 2(1) [OF True] by (simp del: toScalarValues.simps add: toScalarValues_plain [OF True])
  next
    case False
    note ns = this
    show ?thesis
    proof (cases "0xDC00 \<le> unat c")
      case True
      then show ?thesis
        using 2(2) [OF ns True] isScalar_FFFD
        by (simp del: toScalarValues.simps add: toScalarValues_low [OF ns True])
    next
      case False
      note hi = this
      show ?thesis
      proof (cases rest)
        case Nil
        then show ?thesis
          using isScalar_FFFD by (simp del: toScalarValues.simps add: toScalarValues_high_end [OF ns hi])
      next
        case (Cons d rest')
        show ?thesis
        proof (cases "0xDC00 \<le> unat d \<and> unat d \<le> 0xDFFF")
          case True
          show ?thesis
            using 2(3) [OF ns hi Cons True] isScalar_pair [OF ns hi True]
            by (simp del: toScalarValues.simps add: Cons toScalarValues_pair [OF ns hi True])
        next
          case False
          show ?thesis
            using 2(4) [OF ns hi Cons False] isScalar_FFFD
            by (simp del: toScalarValues.simps add: Cons toScalarValues_unpaired [OF ns hi False])
        qed
      qed
    qed
  qed
qed

lemma codeUnits_plain: "codeUnits (unat (c :: codeunit)) = [c]"
  using unat_codeunit_lt [of c] by (simp add: codeUnits_def)

lemma codeUnits_pair:
  assumes "\<not> (unat (c :: codeunit) < 0xD800 \<or> 0xDFFF < unat c)" and "\<not> 0xDC00 \<le> unat c"
    and "0xDC00 \<le> unat (d :: codeunit) \<and> unat d \<le> 0xDFFF"
  shows "codeUnits (0x10000 + push_bit 10 (unat c - 0xD800) + (unat d - 0xDC00)) = [c, d]"
proof -
  let ?h = "unat c - 0xD800" and ?l = "unat d - 0xDC00"
  have l: "?l < 1024"
    using assms by linarith
  have hc: "?h + 0xD800 = unat c" and ld: "?l + 0xDC00 = unat d"
    using assms by linarith+
  have "(1024 * ?h + ?l) div 1024 = ?h" and "(1024 * ?h + ?l) mod 1024 = ?l"
    using l by simp_all
  then have "codeUnits (0x10000 + 1024 * ?h + ?l) = [of_nat (?h + 0xD800), of_nat (?l + 0xDC00)]"
    by (simp add: codeUnits_def)
  then show ?thesis
    unfolding hc ld by (simp add: push_bit_eq_mult mult.commute)
qed

lemma codeUnits_toScalarValues:
  "wellFormed s \<Longrightarrow> concat (map codeUnits (toScalarValues s)) = s"
proof (induction s rule: toScalarValues.induct)
  case 1
  then show ?case by simp
next
  case (2 c rest)
  show ?case
  proof (cases "unat c < 0xD800 \<or> 0xDFFF < unat c")
    case True
    then have "wellFormed rest"
      using 2(5) by simp
    then show ?thesis
      using 2(1) [OF True]
      by (simp del: toScalarValues.simps add: toScalarValues_plain [OF True] codeUnits_plain)
  next
    case False
    note ns = this
    then have hi: "\<not> 0xDC00 \<le> unat c"
      using 2(5) by auto
    from ns hi 2(5) obtain d rest' where Cons: "rest = d # rest'"
      and low: "0xDC00 \<le> unat d \<and> unat d \<le> 0xDFFF" and wf: "wellFormed rest'"
      by (cases rest) auto
    show ?thesis
      using 2(3) [OF ns hi Cons low wf]
      by (simp del: toScalarValues.simps
          add: Cons toScalarValues_pair [OF ns hi low] codeUnits_pair [OF ns hi low])
  qed
qed

lemma toScalarValues_first:
  assumes "s \<noteq> []" and "hd s \<noteq> 0xFEFF"
  shows "\<exists>c cs. toScalarValues s = c # cs \<and> c \<noteq> 0xFEFF"
proof -
  from assms(1) obtain u rest where s: "s = u # rest"
    by (cases s) auto
  have u: "unat u \<noteq> 0xFEFF"
  proof
    assume "unat u = 0xFEFF"
    then have "u = 0xFEFF"
      by (simp add: word_unat_eq_iff)
    then show False
      using assms(2) s by simp
  qed
  show ?thesis
    unfolding s using u
    by (cases rest) (auto simp add: Let_def push_bit_eq_mult split: list.splits)
qed

lemma utf8EncodeCodePoint_nonempty: "utf8EncodeCodePoint c \<noteq> []"
  by (simp add: utf8EncodeCodePoint_def Let_def)

lemma utf8EncodeCodePoint_no_FF:
  assumes "isScalar c"
  shows "255 \<notin> set (utf8EncodeCodePoint c)"
proof -
  have ne: "x < 255 \<Longrightarrow> (of_nat x :: byte) \<noteq> 255" for x
  proof
    assume x: "x < 255" and e: "(of_nat x :: byte) = 255"
    have "unat (of_nat x :: byte) = x"
      using x by (simp add: unat_byte_of_nat)
    then show False
      using x by (simp add: e)
  qed
  have le: "c \<le> 0x10FFFF"
    using assms by (auto simp add: isScalar_def)
  have d: "c div 262144 \<le> 4"
    using le by simp
  have m: "128 + x mod 64 < 255" for x :: nat
    using mod_less_divisor [of 64 x] by linarith
  consider "c \<le> 0x7F" | "0x7F < c" "c \<le> 0x7FF" | "0x7FF < c" "c \<le> 0xFFFF" | "0xFFFF < c"
    by linarith
  then show ?thesis
  proof cases
    case 1
    then have "(of_nat c :: byte) \<noteq> 255"
      by (intro ne) simp
    then show ?thesis
      unfolding enc1 [OF 1] by simp
  next
    case 2
    then have "c div 64 + 192 < 255"
      by simp
    then have "(of_nat (c div 64 + 192) :: byte) \<noteq> 255" "(of_nat (128 + c mod 64) :: byte) \<noteq> 255"
      using m by (simp_all only: ne not_False_eq_True)
    then show ?thesis
      unfolding enc2 [OF 2] by (simp del: of_nat_add)
  next
    case 3
    then have "c div 4096 + 224 < 255"
      by simp
    then have "(of_nat (c div 4096 + 224) :: byte) \<noteq> 255"
      "(of_nat (128 + c div 64 mod 64) :: byte) \<noteq> 255" "(of_nat (128 + c mod 64) :: byte) \<noteq> 255"
      using m by (simp_all only: ne not_False_eq_True)
    then show ?thesis
      unfolding enc3 [OF 3] by (simp del: of_nat_add)
  next
    case 4
    have "c div 262144 + 240 < 255"
      using d by simp
    then have "(of_nat (c div 262144 + 240) :: byte) \<noteq> 255"
      "(of_nat (128 + c div 4096 mod 64) :: byte) \<noteq> 255"
      "(of_nat (128 + c div 64 mod 64) :: byte) \<noteq> 255" "(of_nat (128 + c mod 64) :: byte) \<noteq> 255"
      using m by (simp_all only: ne not_False_eq_True)
    then show ?thesis
      unfolding enc4 [OF 4] by (simp del: of_nat_add)
  qed
qed

lemma utf8Decode_TextEncoder:
  "utf8Decode 0 0 0 0x80 0xBF (TextEncoder_encode s) = toScalarValues s"
  unfolding TextEncoder_encode_def
  by (rule decode_encode_list) (rule isScalar_toScalarValues)

lemma TextDecoder_TextEncoder:
  assumes "wellFormed s" and "s = [] \<or> hd s \<noteq> 0xFEFF"
  shows "TextDecoder_decode (TextEncoder_encode s) = s"
proof (cases "s = []")
  case True
  then show ?thesis
    by (simp add: TextDecoder_decode_def TextEncoder_encode_def)
next
  case False
  then obtain c cs where f: "toScalarValues s = c # cs" "c \<noteq> 0xFEFF"
    using assms(2) toScalarValues_first [of s] by auto
  have "TextDecoder_decode (TextEncoder_encode s) = concat (map codeUnits (toScalarValues s))"
    unfolding TextDecoder_decode_def utf8Decode_TextEncoder Let_def f by (simp add: f(2))
  then show ?thesis
    using assms(1) by (simp only: codeUnits_toScalarValues)
qed

lemma TextEncoder_no_FF: "filter (\<lambda>b. b = 255) (TextEncoder_encode s) = []"
proof -
  have "list_all isScalar cs \<Longrightarrow> 255 \<notin> set (concat (map utf8EncodeCodePoint cs))" for cs
    by (induction cs) (simp_all add: utf8EncodeCodePoint_no_FF)
  then have "255 \<notin> set (TextEncoder_encode s)"
    unfolding TextEncoder_encode_def using isScalar_toScalarValues by blast
  then show ?thesis
    by (auto simp add: filter_empty_conv)
qed

lemma TextEncoder_empty_iff: "TextEncoder_encode s = [] \<longleftrightarrow> s = []"
proof (cases s)
  case Nil
  then show ?thesis
    by (simp add: TextEncoder_encode_def)
next
  case (Cons u rest)
  have "toScalarValues (u # rest) \<noteq> []"
    by (cases rest) (simp_all add: Let_def)
  then show ?thesis
    unfolding Cons TextEncoder_encode_def
    by (cases "toScalarValues (u # rest)") (simp_all add: utf8EncodeCodePoint_nonempty)
qed

lemma encode_Hi: "TextEncoder_encode [72, 105] = [72, 105]"
  by (simp add: TextEncoder_encode_def utf8EncodeCodePoint_def)

lemma encode_BOM_Hi: "TextEncoder_encode [0xFEFF, 72, 105] = [239, 187, 191, 72, 105]"
  by (simp add: TextEncoder_encode_def enc1 enc3)

lemma decode_BOM_Hi: "TextDecoder_decode [239, 187, 191, 72, 105] = [72, 105]"
proof -
  have "TextDecoder_decode (TextEncoder_encode [0xFEFF, 72, 105]) = [72, 105]"
    unfolding TextDecoder_decode_def utf8Decode_TextEncoder
    by (simp add: codeUnits_def)
  then show ?thesis
    by (simp only: encode_BOM_Hi)
qed

lemma decode_bytes_Hi: "TextDecoder_decode [72, 105] = [72, 105]"
proof -
  have "TextDecoder_decode (TextEncoder_encode [72, 105]) = [72, 105]"
    by (rule TextDecoder_TextEncoder) simp_all
  then show ?thesis
    by (simp only: encode_Hi)
qed

lemma encode_unpaired: "TextEncoder_encode [0xD800] = [239, 191, 189]"
  by (simp add: TextEncoder_encode_def enc3)

lemma decode_unpaired: "TextDecoder_decode [239, 191, 189] = [0xFFFD]"
proof -
  have "TextEncoder_encode [0xFFFD] = [239, 191, 189]"
    by (simp add: TextEncoder_encode_def enc3)
  moreover have "TextDecoder_decode (TextEncoder_encode [0xFFFD]) = [0xFFFD]"
    by (rule TextDecoder_TextEncoder) simp_all
  ultimately show ?thesis
    by simp
qed

section \<open>The decoder on a frame\<close>

text \<open>
  What \<open>tryDecodeLinear\<close> computes on 32 bits of any content, followed by the bits of
  seven header bytes, followed by the rest.
\<close>

lemma tryDecodeLinear_framed:
  assumes pre: "length pre = 32"
  shows "tryDecodeLinear (pre @ bytesToBits [v, l, p1, p0, e1, e0, c] @ rest) =
    (if checksum8 [v, l, p1, p0, e1, e0] \<noteq> unat c then None
     else if push_bit 8 (unat p1) OR unat p0 \<le> 0 then None
     else if int ((push_bit 8 (unat p1) OR unat p0) + (push_bit 8 (unat e1) OR unat e0)) > 157
       then None
     else if ((push_bit 8 (unat p1) OR unat p0) + (push_bit 8 (unat e1) OR unat e0)) * 8
               > length rest then None
     else (case rsDecodeSimple
                 (map unat (bitsToBytes
                    (take (((push_bit 8 (unat p1) OR unat p0) + (push_bit 8 (unat e1) OR unat e0)) * 8)
                       rest)))
                 (int (push_bit 8 (unat e1) OR unat e0)) of
             None \<Rightarrow> None
           | Some decoded \<Rightarrow>
               Some (TextDecoder_decode
                       (map of_nat (array_slice decoded 0 (push_bit 8 (unat p1) OR unat p0))))))"
proof -
  let ?hs = "[v, l, p1, p0, e1, e0, c]"
  let ?lin = "pre @ bytesToBits ?hs @ rest"
  have len: "length ?lin = 88 + length rest"
    by (simp add: pre length_bytesToBits)
  have hb: "array_slice ?lin 32 (32 + 56) = bytesToBits ?hs"
    by (simp add: array_slice_def pre length_bytesToBits)
  have cb: "array_slice ?lin (32 + 56) (32 + 56 + n) = take n rest" for n
    by (simp add: array_slice_def pre length_bytesToBits)
  show ?thesis
    unfolding tryDecodeLinear_def Let_def length_START_PATTERN_BITS HEADER_BITS_eq hb cb
      bitsToBytes_bytesToBits capacityDataBits_eq len
    by (simp cong: option.case_cong)
qed

lemma list7:
  assumes "length hs = 7"
  obtains v l p1 p0 e1 e0 c where "hs = [v, l, p1, p0, e1, e0, c]"
  using assms by (auto simp add: numeral_eq_Suc length_Suc_conv)

lemma tryDecodeLinear_bad_checksum:
  assumes pre: "length pre = 32" and hs: "length hs = 7"
    and ck: "checksum8 (take 6 hs) \<noteq> unat (hs ! 6)"
  shows "tryDecodeLinear (pre @ bytesToBits hs @ rest) = None"
proof -
  from hs obtain v l p1 p0 e1 e0 c where e: "hs = [v, l, p1, p0, e1, e0, c]"
    by (rule list7)
  from ck have "checksum8 [v, l, p1, p0, e1, e0] \<noteq> unat c"
    by (simp add: e)
  then show ?thesis
    unfolding e tryDecodeLinear_framed [OF pre] by simp
qed

lemma header_of_frame:
  assumes "length pre = 32" and "length hs = 7"
  shows "bitsToBytes (array_slice (pre @ bytesToBits hs @ rest) 32 88) = hs"
  using assms by (simp add: array_slice_def length_bytesToBits bitsToBytes_bytesToBits)

lemma unat_eq_255: "unat (b :: byte) = 255 \<longleftrightarrow> b = 255"
  by (simp add: word_unat_eq_iff)

lemma count_unat_0: "length (filter (\<lambda>x. x = 0) (map unat (tb :: byte list))) = length (filter (\<lambda>b. b = 0) tb)"
  by (simp add: filter_map o_def unat_eq_0)

lemma count_unat_255: "length (filter (\<lambda>x. x = 255) (map unat (tb :: byte list))) = length (filter (\<lambda>b. b = 255) tb)"
  by (simp add: filter_map o_def unat_eq_255)

lemma rsDecodeSimple_eval:
  assumes "length cw = n + e" and "0 < n"
  shows "rsDecodeSimple cw (int e) =
           (if 4 * n < 5 * length (filter (\<lambda>x. x = 0) (take n cw))
               \<or> 4 * n < 5 * length (filter (\<lambda>x. x = 255) (take n cw))
            then None else Some (take n cw))"
proof -
  have d: "int (length cw) - int e = int n"
    using assms by simp
  have c: "(4 * int m < 5 * int z) = (4 * m < 5 * z)" for z m
    by linarith
  have g: "\<not> int n \<le> 0" "\<not> int (length cw) < int e"
    using assms by simp_all
  show ?thesis
    unfolding rsDecodeSimple_def Let_def d c nat_int
    by (simp only: g) simp
qed

lemma decode_frame_of_codeword:
  assumes n: "0 < n" "n < 65536" and e: "e < 65536" and ne: "n + e \<le> 157"
    and enc: "n + e \<le> length enc"
    and pre: "length pre = 32"
  shows "tryDecodeLinear (pre @ bytesToBits (header lvl n e) @ bytesToBits enc @ pad) =
           (if 4 * n < 5 * length (filter (\<lambda>b. b = 0) (take n enc))
               \<or> 4 * n < 5 * length (filter (\<lambda>b. b = 255) (take n enc))
            then None else Some (TextDecoder_decode (take n enc)))"
proof -
  let ?P1 = "of_nat (drop_bit 8 n AND 255) :: byte" and ?P0 = "of_nat (n AND 255) :: byte"
  let ?E1 = "of_nat (drop_bit 8 e AND 255) :: byte" and ?E0 = "of_nat (e AND 255) :: byte"
  let ?h6 = "[3, of_int lvl, ?P1, ?P0, ?E1, ?E0]"
  let ?C = "of_nat (checksum8 ?h6) :: byte"
  let ?rest = "bytesToBits enc @ pad"
  have pl: "push_bit 8 (unat ?P1) OR unat ?P0 = n"
    by (rule be16 [OF n(2)])
  have el: "push_bit 8 (unat ?E1) OR unat ?E0 = e"
    by (rule be16 [OF e])
  have ck: "checksum8 ?h6 = unat ?C"
    by (simp only: stored_checksum)
  have lr: "(n + e) * 8 \<le> length ?rest"
    using enc by (simp add: length_bytesToBits)
  have tk: "take ((n + e) * 8) ?rest = bytesToBits (take (n + e) enc)"
    using enc take_bytesToBits [of "n + e" enc]
    by (simp add: length_bytesToBits mult.commute)
  let ?cw = "map unat (take (n + e) enc)"
  have lcw: "length ?cw = n + e"
    using enc by simp
  have tcw: "take n ?cw = map unat (take n enc)"
    by (simp add: take_map min_def)
  have rs: "rsDecodeSimple ?cw (int e) =
              (if 4 * n < 5 * length (filter (\<lambda>b. b = 0) (take n enc))
                  \<or> 4 * n < 5 * length (filter (\<lambda>b. b = 255) (take n enc))
               then None else Some (map unat (take n enc)))"
    by (simp only: rsDecodeSimple_eval [OF lcw n(1)] tcw count_unat_0 count_unat_255)
  have fin: "map of_nat (array_slice (map unat (take n enc)) 0 n) = take n enc"
    by (simp add: array_slice_def map_idI)
  have "tryDecodeLinear (pre @ bytesToBits [3, of_int lvl, ?P1, ?P0, ?E1, ?E0, ?C] @ ?rest) =
           (if 4 * n < 5 * length (filter (\<lambda>b. b = 0) (take n enc))
               \<or> 4 * n < 5 * length (filter (\<lambda>b. b = 255) (take n enc))
            then None else Some (TextDecoder_decode (take n enc)))"
    unfolding tryDecodeLinear_framed [OF pre] pl el tk bitsToBytes_bytesToBits rs
    using ck n(1) ne lr by (simp add: fin)
  then show ?thesis
    by (simp only: header_explicit)
qed

section \<open>The bit sequence of the encoder\<close>

lemma encodeText_Inr:
  assumes "int (length tb) \<le> maxPayloadBytes lvl"
  shows "encodeText tb lvl =
           Inr (START_PATTERN_BITS
                  @ bytesToBits (header lvl (length tb) (eccBytes lvl))
                  @ bytesToBits (simpleRS (tb @ replicate (nat (maxPayloadBytes lvl) - length tb) 0)
                                    (eccBytes lvl)))"
proof -
  let ?payload = "tb @ replicate (nat (maxPayloadBytes lvl) - length tb) (0 :: byte)"
  let ?all = "START_PATTERN_BITS @ bytesToBits (header lvl (length tb) (eccBytes lvl))
                @ bytesToBits (simpleRS ?payload (eccBytes lvl))"
  have lp: "length ?payload = nat (maxPayloadBytes lvl)"
    using assms by simp
  have le: "length (bytesToBits (simpleRS ?payload (eccBytes lvl)))
              = 8 * (nat (maxPayloadBytes lvl) + eccBytes lvl)"
    by (simp only: length_bytesToBits length_simpleRS lp)
  have "length ?all = 32 + 56 + 8 * (nat (maxPayloadBytes lvl) + eccBytes lvl)"
    unfolding length_append le
    by (simp add: length_START_PATTERN_BITS length_bytesToBits length_header)
  then have la: "length ?all = capacityBits"
    by (simp only: maxPayloadBytes_nat capacityBits_eq)
  have "encodeText tb lvl
          = Inr (array_slice (?all @ replicate (capacityBits - length ?all) 0) 0 capacityBits)"
    using assms by (simp add: encodeText_def Let_def)
  also have "array_slice (?all @ replicate (capacityBits - length ?all) 0) 0 capacityBits = ?all"
    unfolding la array_slice_def using la by simp
  finally show ?thesis .
qed

lemma encodeText_Inl:
  "encodeText tb lvl = Inl PayloadTooLarge \<longleftrightarrow> maxPayloadBytes lvl < int (length tb)"
  by (simp add: encodeText_def Let_def)

lemma encodeText_InrD:
  assumes "encodeText tb lvl = Inr bits"
  shows "int (length tb) \<le> maxPayloadBytes lvl"
    and "bits = START_PATTERN_BITS
                  @ bytesToBits (header lvl (length tb) (eccBytes lvl))
                  @ bytesToBits (simpleRS (tb @ replicate (nat (maxPayloadBytes lvl) - length tb) 0)
                                    (eccBytes lvl))"
proof -
  show le: "int (length tb) \<le> maxPayloadBytes lvl"
    using assms by (simp add: encodeText_def Let_def split: if_splits)
  show "bits = START_PATTERN_BITS
                  @ bytesToBits (header lvl (length tb) (eccBytes lvl))
                  @ bytesToBits (simpleRS (tb @ replicate (nat (maxPayloadBytes lvl) - length tb) 0)
                                    (eccBytes lvl))"
    using assms encodeText_Inr [OF le] by simp
qed

lemma decode_encoded:
  assumes le: "int (length tb) \<le> maxPayloadBytes lvl"
  shows "tryDecodeLinear
           (START_PATTERN_BITS
              @ bytesToBits (header lvl (length tb) (eccBytes lvl))
              @ bytesToBits (simpleRS (tb @ replicate (nat (maxPayloadBytes lvl) - length tb) 0)
                               (eccBytes lvl))) =
         (if tb = [] \<or> 4 * length tb < 5 * length (filter (\<lambda>b. b = 0) tb)
             \<or> 4 * length tb < 5 * length (filter (\<lambda>b. b = 255) tb)
          then None else Some (TextDecoder_decode tb))"
proof (cases "tb = []")
  case True
  have "tryDecodeLinear (START_PATTERN_BITS @ bytesToBits (header lvl 0 (eccBytes lvl)) @ rest) = None"
    for rest
    unfolding header_explicit tryDecodeLinear_framed [OF length_START_PATTERN_BITS]
    by simp
  then show ?thesis
    using True by simp
next
  case False
  let ?n = "length tb" and ?e = "eccBytes lvl"
  let ?payload = "tb @ replicate (nat (maxPayloadBytes lvl) - length tb) (0 :: byte)"
  let ?enc = "simpleRS ?payload ?e"
  have n0: "0 < ?n"
    using False by simp
  have n1: "?n < 65536"
    using le maxPayloadBytes_le [of lvl] by simp
  have lp: "length ?payload = nat (maxPayloadBytes lvl)"
    using le by simp
  have ne: "?n + ?e \<le> 157"
    using le maxPayloadBytes_nat [of lvl] by simp
  have lenc: "length ?enc = 157"
    by (simp only: length_simpleRS lp maxPayloadBytes_nat)
  have enc: "?n + ?e \<le> length ?enc"
    using ne by (simp only: lenc)
  have tk: "take ?n ?enc = tb"
    by (simp add: simpleRS_unfold)
  have "tryDecodeLinear (START_PATTERN_BITS @ bytesToBits (header lvl ?n ?e) @ bytesToBits ?enc @ [])
          = (if 4 * ?n < 5 * length (filter (\<lambda>b. b = 0) (take ?n ?enc))
               \<or> 4 * ?n < 5 * length (filter (\<lambda>b. b = 255) (take ?n ?enc))
             then None else Some (TextDecoder_decode (take ?n ?enc)))"
    by (rule decode_frame_of_codeword [OF n0 n1 eccBytes_lt ne enc length_START_PATTERN_BITS])
  then show ?thesis
    unfolding tk using False by simp
qed

lemma flip_in_header:
  fixes pre rest :: "nat list" and hs :: "byte list" and p :: nat
  defines "lin \<equiv> pre @ bytesToBits hs @ rest"
  defines "hs' \<equiv> hs[(p - 32) div 8 := hs ! ((p - 32) div 8) XOR 2 ^ (7 - (p - 32) mod 8)]"
  assumes pre: "length pre = 32" and hs: "length hs = 7" and p: "32 \<le> p" "p < 80"
    and ck: "unat (hs ! 6) = checksum8 (take 6 hs)"
  shows "lin[p := flipBit (lin ! p)] = pre @ bytesToBits hs' @ rest"
    and "checksum8 (take 6 hs') \<noteq> unat (hs' ! 6)"
proof -
  let ?q = "p - 32"
  have q: "?q < 48" "p = 32 + ?q"
    using p by simp_all
  have qh: "?q < 8 * length hs"
    using q hs by simp
  have k: "?q div 8 < 6"
    using q by simp
  have lb: "?q < length (bytesToBits hs)"
    using q hs by (simp add: length_bytesToBits)
  have n1: "lin ! p = bytesToBits hs ! ?q"
    unfolding lin_def using p pre lb by (simp add: nth_append)
  have "lin[p := flipBit (lin ! p)]
          = pre @ (bytesToBits hs)[?q := flipBit (bytesToBits hs ! ?q)] @ rest"
    unfolding n1 unfolding lin_def using p pre lb by (simp add: list_update_append)
  then show "lin[p := flipBit (lin ! p)] = pre @ bytesToBits hs' @ rest"
    by (simp only: bytesToBits_flip [OF qh] hs'_def)
  have t: "take 6 hs' = (take 6 hs)[?q div 8 := take 6 hs ! (?q div 8) XOR 2 ^ (7 - ?q mod 8)]"
    using k by (simp add: hs'_def take_update_swap)
  have s: "hs' ! 6 = hs ! 6"
    using k by (simp add: hs'_def)
  have "7 - ?q mod 8 < 8"
    by simp
  then have nz: "(2 :: byte) ^ (7 - ?q mod 8) \<noteq> 0"
    by (rule pow2_byte_nonzero)
  have "?q div 8 < length (take 6 hs)"
    using k hs by simp
  then have "checksum8 ((take 6 hs)[?q div 8 := take 6 hs ! (?q div 8) XOR 2 ^ (7 - ?q mod 8)])
               \<noteq> checksum8 (take 6 hs)"
    using nz by (rule checksum8_flip)
  then show "checksum8 (take 6 hs') \<noteq> unat (hs' ! 6)"
    unfolding t s ck .
qed

section \<open>Particular frames\<close>

text \<open>The header of the empty text at level 2, the frame of the text \<open>Hi\<close>, and the bit
  sequences made of zeros only and of ones only.\<close>

lemma header_empty_level2: "header 2 0 32 = [3, 2, 0, 0, 0, 32, 37]"
  by (simp add: header_def checksum8_def)

lemma decode_Hi:
  "tryDecodeLinear (START_PATTERN_BITS @ bytesToBits (header 2 2 32)
      @ bytesToBits (simpleRS (72 # 105 # replicate 123 0) 32)) = Some [72, 105]"
proof -
  have le: "int (length [72, 105 :: byte]) \<le> maxPayloadBytes 2"
    by (simp add: maxPayloadBytes_cases)
  have e: "eccBytes 2 = 32" "nat (maxPayloadBytes 2) = 125" "length [72, 105 :: byte] = 2"
    by (simp_all add: eccBytes_cases maxPayloadBytes_cases)
  have p: "[72, 105 :: byte] @ replicate (125 - 2) 0 = 72 # 105 # replicate 123 0"
    by simp
  show ?thesis
    using decode_encoded [OF le] unfolding e p by (simp add: decode_bytes_Hi)
qed




lemma all_one_frame:
  "replicate 1344 1 = replicate 32 1 @ bytesToBits [255, 255, 255, 255, 255, 255, 255] @ replicate 1256 1"
  by code_simp

section \<open>Capacity and length of the bit sequence\<close>

text \<open>
  Claim C5. The layout holds 1344 bits (the sum of the six sector counts), 1256 of them
  after the 32-bit start pattern and the 56-bit header, and whenever \<open>encodeText\<close>
  accepts its input (any text, any level) the bit sequence it returns has exactly 1344
  elements.
\<close>

theorem encodeText_length:
  "capacityBits = 1344 \<and> capacityDataBits = 1256 \<and>
   (\<forall>textBytes eccLevel bits.
      encodeText textBytes eccLevel = Inr bits \<longrightarrow> length bits = 1344)"
  by (auto simp add: capacityBits_eq capacityDataBits_eq encodeText_def Let_def length_array_slice
      split: if_splits)

theorem encodeText_length_witness:
  "\<exists>bits. encodeText [72, 105] 2 = Inr bits \<and> length bits = 1344"
proof -
  obtain bits where b: "encodeText [72, 105] 2 = Inr bits"
    by (simp add: encodeText_def Let_def maxPayloadBytes_cases)
  from encodeText_length b have "length bits = 1344"
    by blast
  with b show ?thesis
    by blast
qed

section \<open>The payload limit\<close>

text \<open>
  Claim C2. For a level in 0..3, \<open>encodeText\<close> fails with \<open>PayloadTooLarge\<close> exactly
  when the text has more UTF-8 bytes than the level's capacity: 149, 141, 125 and 93
  bytes for the levels 0, 1, 2 and 3. So a text of exactly that many bytes is accepted
  and a text one byte longer is refused.
\<close>

theorem encodeText_PayloadTooLarge_iff:
  assumes "eccLevel \<in> {0, 1, 2, 3}"
  shows "encodeText textBytes eccLevel = Inl PayloadTooLarge
           \<longleftrightarrow> int (length textBytes) > [149, 141, 125, 93] ! nat eccLevel"
  using assms by (auto simp add: encodeText_def Let_def maxPayloadBytes_cases)

theorem encodeText_PayloadTooLarge_iff_witness:
  "encodeText (replicate 126 65) 2 = Inl PayloadTooLarge
   \<and> encodeText (replicate 125 65) 2 \<noteq> Inl PayloadTooLarge"
  using encodeText_PayloadTooLarge_iff [of 2 "replicate 126 65"]
    encodeText_PayloadTooLarge_iff [of 2 "replicate 125 65"]
  by simp

section \<open>A level outside the table\<close>

text \<open>
  Claim C10 says that for a level outside 0..3 the encoder does not fail on the level,
  uses 32 redundancy bytes (as level 2 does, with at most 125 payload bytes) and still
  writes the given level into the level byte of the header. The level byte is an element
  of a \<open>Uint8Array\<close>, so it cannot hold every level: for the text \<open>A\<close> and the level
  256 the header written is 3, 0, 0, 1, 0, 32, 36, with the level byte 0.
\<close>

theorem level_byte_counterexample:
  "encodeText [65] 256 =
     Inr (START_PATTERN_BITS @ bytesToBits [3, 0, 0, 1, 0, 32, 36]
            @ bytesToBits (simpleRS (65 # replicate 124 0) 32))
   \<and> uint ([3, 0, 0, 1, 0, 32, 36 :: byte] ! 1) \<noteq> 256"
proof -
  have le: "int (length [65 :: byte]) \<le> maxPayloadBytes 256"
    by (simp add: maxPayloadBytes_cases)
  have e: "eccBytes 256 = 32" "nat (maxPayloadBytes 256) = 125"
    by (simp_all add: eccBytes_cases maxPayloadBytes_cases)
  have h: "header 256 (length [65 :: byte]) 32 = [3, 0, 0, 1, 0, 32, 36]"
    by (simp add: header_def checksum8_def)
  have p: "[65 :: byte] @ replicate (125 - length [65 :: byte]) 0 = 65 # replicate 124 0"
    by simp
  have u: "uint ([3, 0, 0, 1, 0, 32, 36 :: byte] ! 1) \<noteq> 256"
    by simp
  show ?thesis
    using encodeText_Inr [OF le] u unfolding e h p by (intro conjI)
qed

text \<open>
  Claim C10, amended. For every integer level outside 0..3, \<open>encodeText\<close> uses 32
  redundancy bytes and the payload limit 125: it fails exactly when the text has more
  than 125 bytes, and otherwise returns the start pattern, the header and the same
  codeword bits as for level 2; the header carries the redundancy length 32 and, in its
  level byte, the level modulo 256 (the level itself when it lies in 4..255).
\<close>

theorem encodeText_unknown_level:
  assumes "eccLevel \<notin> {0, 1, 2, 3}"
  shows "eccBytes eccLevel = 32 \<and> maxPayloadBytes eccLevel = 125
    \<and> (encodeText textBytes eccLevel = Inl PayloadTooLarge \<longleftrightarrow> 125 < length textBytes)
    \<and> (length textBytes \<le> 125 \<longrightarrow>
          encodeText textBytes eccLevel =
            Inr (START_PATTERN_BITS
                   @ bytesToBits (header eccLevel (length textBytes) 32)
                   @ bytesToBits (simpleRS (textBytes @ replicate (125 - length textBytes) 0) 32))
          \<and> encodeText textBytes 2 =
            Inr (START_PATTERN_BITS
                   @ bytesToBits (header 2 (length textBytes) 32)
                   @ bytesToBits (simpleRS (textBytes @ replicate (125 - length textBytes) 0) 32)))
    \<and> uint (header eccLevel (length textBytes) 32 ! 1) = eccLevel mod 256
    \<and> map unat (take 2 (drop 4 (header eccLevel (length textBytes) 32))) = [0, 32]"
proof -
  have e: "eccBytes eccLevel = 32" "maxPayloadBytes eccLevel = 125"
    using assms by (simp_all add: eccBytes_cases maxPayloadBytes_cases)
  have e2: "eccBytes 2 = 32" "maxPayloadBytes 2 = 125"
    by (simp_all add: eccBytes_cases maxPayloadBytes_cases)
  have a: "encodeText textBytes eccLevel = Inl PayloadTooLarge \<longleftrightarrow> 125 < length textBytes"
    by (simp add: encodeText_Inl e)
  have b: "encodeText textBytes eccLevel =
            Inr (START_PATTERN_BITS
                   @ bytesToBits (header eccLevel (length textBytes) 32)
                   @ bytesToBits (simpleRS (textBytes @ replicate (125 - length textBytes) 0) 32))"
    if "length textBytes \<le> 125"
    using that encodeText_Inr [of textBytes eccLevel] by (simp add: e)
  have c: "encodeText textBytes 2 =
            Inr (START_PATTERN_BITS
                   @ bytesToBits (header 2 (length textBytes) 32)
                   @ bytesToBits (simpleRS (textBytes @ replicate (125 - length textBytes) 0) 32))"
    if "length textBytes \<le> 125"
    using that encodeText_Inr [of textBytes 2] by (simp add: e2)
  have d: "uint (header eccLevel (length textBytes) 32 ! 1) = eccLevel mod 256"
    by (simp add: header_explicit uint_word_of_int)
  have f: "map unat (take 2 (drop 4 (header eccLevel (length textBytes) 32))) = [0, 32]"
    by (simp add: header_explicit)
  show ?thesis
    using e a b c d f by blast
qed

theorem encodeText_unknown_level_witness:
  "encodeText (replicate 126 65) 7 = Inl PayloadTooLarge
   \<and> encodeText [72, 105] 7 \<noteq> Inl PayloadTooLarge
   \<and> eccBytes 7 = 32 \<and> maxPayloadBytes 7 = 125"
  using encodeText_unknown_level [of 7 "replicate 126 65"]
    encodeText_unknown_level [of 7 "[72, 105]"]
  by simp

section \<open>The redundancy bytes of the encoder\<close>

text \<open>
  Claim C7. \<open>simpleRS\<close> applied to a payload and \<open>n\<close> returns the payload followed by
  exactly \<open>n\<close> extra bytes; extra byte \<open>i\<close> (from 0) is the XOR, over all payload
  bytes, of the byte times \<open>i + 1\<close>, masked to 8 bits.
\<close>

theorem simpleRS_appendRedundancy:
  "simpleRS payload n = appendRedundancy payload n
   \<and> length (simpleRS payload n) = length payload + n"
proof
  have "simpleRS payload n
          = foldl (\<lambda>result i. result[length payload + i := redundancyByte payload i])
              (payload @ drop (length payload) (replicate (length payload + n) 0)) [0..<n]"
    unfolding simpleRS_def Let_def simpleRS_inner redundancyByte_def by (rule refl)
  also have "drop (length payload) (replicate (length payload + n) (0 :: byte)) = replicate n 0"
    by simp
  also have "foldl (\<lambda>result i. result[length payload + i := redundancyByte payload i])
              (payload @ replicate n 0) [0..<n]
               = payload @ map (redundancyByte payload) [0..<n] @ drop n (replicate n 0)"
    by (rule simpleRS_outer) simp
  finally show "simpleRS payload n = appendRedundancy payload n"
    by (simp add: appendRedundancy_def)
  show "length (simpleRS payload n) = length payload + n"
    by (rule length_simpleRS)
qed

section \<open>The redundancy check of the decoder\<close>

text \<open>
  Claim C3 says that a codeword is rejected as soon as at least 80% of its data bytes
  are 0 or 255. With five data bytes of which four are 0 (exactly 80%) the codeword is
  accepted: the comparison in the code is strict.
\<close>

theorem rsDecodeSimple_boundary_counterexample:
  "rsDecodeSimple [0, 0, 0, 0, 1, 7] 1 = Some [0, 0, 0, 0, 1]
   \<and> 5 * count_list (take 5 [0, 0, 0, 0, 1, 7 :: nat]) 0 = 4 * 5"
  by (simp add: rsDecodeSimple_def)

text \<open>
  Claim C3, amended. A codeword with at least one data byte is rejected by
  \<open>rsDecodeSimple\<close> exactly when strictly more than 80% of its data bytes are 0, or
  strictly more than 80% of its data bytes are 255 (the two counts are taken
  separately).
\<close>

theorem rsDecodeSimple_None_iff:
  assumes "0 \<le> eccLen" and "eccLen < int (length codeword)"
  shows "rsDecodeSimple codeword eccLen = None \<longleftrightarrow>
           5 * length (filter (\<lambda>x. x = 0) (take (length codeword - nat eccLen) codeword))
              > 4 * (length codeword - nat eccLen)
         \<or> 5 * length (filter (\<lambda>x. x = 255) (take (length codeword - nat eccLen) codeword))
              > 4 * (length codeword - nat eccLen)"
proof -
  have n: "nat (int (length codeword) - eccLen) = length codeword - nat eccLen"
    using assms by simp
  have d: "int (length codeword) - eccLen = int (length codeword - nat eccLen)"
    using assms by simp
  have c: "(4 * int m < 5 * int z) = (4 * m < 5 * z)" for z m
    by linarith
  have e: "\<not> int (length codeword - nat eccLen) \<le> 0" "\<not> int (length codeword) < eccLen"
    using assms by simp_all
  show ?thesis
    unfolding rsDecodeSimple_def Let_def n d c
    by (simp only: e) simp
qed

theorem rsDecodeSimple_None_iff_witness:
  "rsDecodeSimple [0, 0, 0, 0, 0, 7] 1 = None \<and> rsDecodeSimple [0, 0, 0, 0, 1, 7] 1 \<noteq> None"
  using rsDecodeSimple_None_iff [of 1 "[0, 0, 0, 0, 0, 7]"]
    rsDecodeSimple_None_iff [of 1 "[0, 0, 0, 0, 1, 7]"]
  by simp

text \<open>
  Claim C6. \<open>rsDecodeSimple\<close> does not read the redundancy bytes: two codewords of the
  same length that agree on their first \<open>length - eccLen\<close> bytes get the same result,
  whatever their last \<open>eccLen\<close> bytes are.
\<close>

theorem rsDecodeSimple_ignores_ecc:
  assumes "length cw1 = length cw2"
    and "take (nat (int (length cw1) - eccLen)) cw1 = take (nat (int (length cw2) - eccLen)) cw2"
  shows "rsDecodeSimple cw1 eccLen = rsDecodeSimple cw2 eccLen"
  using assms by (simp add: rsDecodeSimple_def Let_def)

theorem rsDecodeSimple_ignores_ecc_witness:
  "rsDecodeSimple [1, 2, 3, 9] 1 = rsDecodeSimple [1, 2, 3, 7] 1
   \<and> rsDecodeSimple [1, 2, 3, 7] 1 = Some [1, 2, 3]"
  using rsDecodeSimple_ignores_ecc [of "[1, 2, 3, 9]" "[1, 2, 3, 7]" 1]
  by (simp add: rsDecodeSimple_def)

section \<open>What the decoder accepts and refuses\<close>

text \<open>
  Claim C8. \<open>tryDecodeLinear\<close> does not read the start pattern: two bit sequences of the
  same length that agree from position 32 (the length of the start pattern) on get the
  same result, whatever their first 32 bits are.
\<close>

theorem tryDecodeLinear_ignores_start:
  assumes len: "length l1 = length l2"
    and tl: "drop (length START_PATTERN_BITS) l1 = drop (length START_PATTERN_BITS) l2"
  shows "tryDecodeLinear l1 = tryDecodeLinear l2"
proof -
  have d32: "drop 32 l1 = drop 32 l2"
    using tl by (simp add: length_START_PATTERN_BITS)
  have "drop 56 (drop 32 l1) = drop 56 (drop 32 l2)"
    by (simp only: d32)
  then have d88: "drop (32 + 56) l1 = drop (32 + 56) l2"
    by (simp add: add.commute)
  show ?thesis
    unfolding tryDecodeLinear_def array_slice_def Let_def length_START_PATTERN_BITS HEADER_BITS_eq
      len d32 d88 by (rule refl)
qed

theorem tryDecodeLinear_ignores_start_witness:
  "tryDecodeLinear (replicate 32 0 @ bytesToBits (header 2 2 32)
      @ bytesToBits (simpleRS (72 # 105 # replicate 123 0) 32))
     = tryDecodeLinear (START_PATTERN_BITS @ bytesToBits (header 2 2 32)
      @ bytesToBits (simpleRS (72 # 105 # replicate 123 0) 32))
   \<and> tryDecodeLinear (START_PATTERN_BITS @ bytesToBits (header 2 2 32)
      @ bytesToBits (simpleRS (72 # 105 # replicate 123 0) 32)) = Some [72, 105]"
proof -
  let ?T = "bytesToBits (header 2 2 32) @ bytesToBits (simpleRS (72 # 105 # replicate 123 0) 32)"
  have len: "length (replicate 32 (0::nat) @ ?T) = length (START_PATTERN_BITS @ ?T)"
    by (simp add: length_START_PATTERN_BITS)
  have tl: "drop (length START_PATTERN_BITS) (replicate 32 (0::nat) @ ?T)
              = drop (length START_PATTERN_BITS) (START_PATTERN_BITS @ ?T)"
    by (simp add: length_START_PATTERN_BITS)
  show ?thesis
    using tryDecodeLinear_ignores_start [OF len tl] decode_Hi by simp
qed


text \<open>
  The search over an image also tries the inversion of every sampled bit sequence; the
  inversion of the all-zero sequence is refused as well, by the checksum.
\<close>

lemma all_one_None: "tryDecodeLinear (replicate 1344 1) = None"
proof -
  have "checksum8 (take 6 [255, 255, 255, 255, 255, 255, 255])
          \<noteq> unat ([255, 255, 255, 255, 255, 255, 255 :: byte] ! 6)"
    by (simp add: checksum8_def)
  then have "tryDecodeLinear (replicate 32 1 @ bytesToBits [255, 255, 255, 255, 255, 255, 255] @ replicate 1256 1)
               = None"
    by (intro tryDecodeLinear_bad_checksum) simp_all
  then show ?thesis
    by (simp only: all_one_frame)
qed

text \<open>
  Claim C4. In a bit sequence returned by \<open>encodeText\<close>, flipping any single bit at a
  position from 32 to 79 (the bits of the first six header bytes) makes the checksum
  recomputed by the decoder differ from the stored checksum byte, and
  \<open>tryDecodeLinear\<close> returns \<open>null\<close> on the modified sequence.
\<close>

theorem header_bit_flip_rejected:
  assumes enc: "encodeText textBytes eccLevel = Inr bits" and p: "32 \<le> p" "p < 80"
  shows "tryDecodeLinear (bits[p := flipBit (bits ! p)]) = None
         \<and> checksum8 (take 6 (bitsToBytes (array_slice (bits[p := flipBit (bits ! p)]) 32 88)))
             \<noteq> unat (bitsToBytes (array_slice (bits[p := flipBit (bits ! p)]) 32 88) ! 6)"
proof -
  let ?H = "header eccLevel (length textBytes) (eccBytes eccLevel)"
  let ?R = "bytesToBits (simpleRS (textBytes @ replicate (nat (maxPayloadBytes eccLevel) - length textBytes) 0)
                                    (eccBytes eccLevel))"
  let ?H' = "?H[(p - 32) div 8 := ?H ! ((p - 32) div 8) XOR 2 ^ (7 - (p - 32) mod 8)]"
  have b: "bits = START_PATTERN_BITS @ bytesToBits ?H @ ?R"
    by (rule encodeText_InrD(2) [OF enc])
  have f: "bits[p := flipBit (bits ! p)] = START_PATTERN_BITS @ bytesToBits ?H' @ ?R"
    unfolding b
    by (rule flip_in_header(1) [OF length_START_PATTERN_BITS length_header p header_checksum])
  have c: "checksum8 (take 6 ?H') \<noteq> unat (?H' ! 6)"
    by (rule flip_in_header(2) [OF length_START_PATTERN_BITS length_header p header_checksum])
  have l: "length ?H' = 7"
    by (simp add: length_header)
  have n: "tryDecodeLinear (START_PATTERN_BITS @ bytesToBits ?H' @ ?R) = None"
    by (rule tryDecodeLinear_bad_checksum [OF length_START_PATTERN_BITS l c])
  have h: "bitsToBytes (array_slice (START_PATTERN_BITS @ bytesToBits ?H' @ ?R) 32 88) = ?H'"
    by (rule header_of_frame [OF length_START_PATTERN_BITS l])
  show ?thesis
    unfolding f h using n c by simp
qed

theorem header_bit_flip_rejected_witness:
  "\<exists>bits. encodeText [72, 105] 2 = Inr bits
      \<and> tryDecodeLinear (bits[40 := flipBit (bits ! 40)]) = None"
proof -
  obtain bits where b: "encodeText [72, 105] 2 = Inr bits"
    by (simp add: encodeText_def Let_def maxPayloadBytes_cases)
  have "tryDecodeLinear (bits[40 := flipBit (bits ! 40)]) = None"
    using header_bit_flip_rejected [OF b, of 40] by simp
  with b show ?thesis
    by blast
qed

section \<open>Encoding, then decoding\<close>

text \<open>
  Claim C1 says that decoding the bit sequence of \<open>encodeText\<close> gives the text back
  whenever the text fits the level. For the empty text the encoder writes the payload
  length 0 into the header, and the decoder refuses a payload length that is not
  positive.
\<close>

theorem roundtrip_empty_text_counterexample:
  "TextEncoder_encode [] = []
   \<and> encodeText (TextEncoder_encode []) 2 =
       Inr (START_PATTERN_BITS @ bytesToBits [3, 2, 0, 0, 0, 32, 37]
              @ bytesToBits (simpleRS (replicate 125 0) 32))
   \<and> tryDecodeLinear (START_PATTERN_BITS @ bytesToBits [3, 2, 0, 0, 0, 32, 37]
            @ bytesToBits (simpleRS (replicate 125 0) 32)) = None"
proof -
  have t: "TextEncoder_encode [] = []"
    by (simp add: TextEncoder_encode_def)
  have le: "int (length ([] :: byte list)) \<le> maxPayloadBytes 2"
    by (simp add: maxPayloadBytes_cases)
  have e: "eccBytes 2 = 32" "nat (maxPayloadBytes 2) = 125"
    by (simp_all add: eccBytes_cases maxPayloadBytes_cases)
  show ?thesis
    unfolding t using encodeText_Inr [OF le] decode_encoded [OF le]
    by (simp add: e header_empty_level2)
qed

text \<open>
  Claim C1, amended. For every level in 0..3 and every text that is not empty, has no
  unpaired surrogate, does not start with U+FEFF, whose UTF-8 encoding has at most the
  level's maximum of bytes (149, 141, 125, 93) and has at most 80% of its bytes equal
  to 0, \<open>encodeText\<close> returns a bit sequence on which \<open>tryDecodeLinear\<close> returns the
  original text exactly.
\<close>

theorem encode_decode_roundtrip:
  assumes "eccLevel \<in> {0, 1, 2, 3}"
    and "int (length (TextEncoder_encode str)) \<le> [149, 141, 125, 93] ! nat eccLevel"
    and "str \<noteq> []"
    and "wellFormed str"
    and "hd str \<noteq> 0xFEFF"
    and "5 * length (filter (\<lambda>b. b = 0) (TextEncoder_encode str))
           \<le> 4 * length (TextEncoder_encode str)"
  shows "\<exists>bits. encodeText (TextEncoder_encode str) eccLevel = Inr bits
           \<and> tryDecodeLinear bits = Some str"
proof -
  let ?tb = "TextEncoder_encode str"
  have le: "int (length ?tb) \<le> maxPayloadBytes eccLevel"
    using assms(1,2) by (auto simp add: maxPayloadBytes_cases)
  have ne: "?tb \<noteq> []"
    using assms(3) by (simp add: TextEncoder_empty_iff)
  have ff: "\<not> 4 * length ?tb < 5 * length (filter (\<lambda>b. b = 255) ?tb)"
    by (simp add: TextEncoder_no_FF)
  have z: "\<not> 4 * length ?tb < 5 * length (filter (\<lambda>b. b = 0) ?tb)"
    using assms(6) by simp
  have rt: "TextDecoder_decode ?tb = str"
    using assms(4,5) by (intro TextDecoder_TextEncoder) simp_all
  have "tryDecodeLinear
          (START_PATTERN_BITS
             @ bytesToBits (header eccLevel (length ?tb) (eccBytes eccLevel))
             @ bytesToBits (simpleRS (?tb @ replicate (nat (maxPayloadBytes eccLevel) - length ?tb) 0)
                              (eccBytes eccLevel))) = Some str"
    unfolding decode_encoded [OF le] using ne ff z by (simp only: rt if_False simp_thms)
  then show ?thesis
    by (simp add: encodeText_Inr [OF le])
qed

theorem encode_decode_roundtrip_witness:
  "\<exists>bits. encodeText (TextEncoder_encode [72, 105]) 2 = Inr bits
     \<and> tryDecodeLinear bits = Some [72, 105]"
  using encode_decode_roundtrip [of 2 "[72, 105]"] by (simp add: encode_Hi)

text \<open>
  Each of the other conditions is needed. The text made of the single character U+0000
  is encoded, and the redundancy check of the decoder refuses its frame.
\<close>

lemma nul_text_rejected:
  "TextEncoder_encode [0] = [0]
   \<and> encodeText [0] 2 =
       Inr (START_PATTERN_BITS @ bytesToBits (header 2 1 32)
              @ bytesToBits (simpleRS (0 # replicate 124 0) 32))
   \<and> tryDecodeLinear (START_PATTERN_BITS @ bytesToBits (header 2 1 32)
            @ bytesToBits (simpleRS (0 # replicate 124 0) 32)) = None"
proof -
  have t: "TextEncoder_encode [0] = [0]"
    by (simp add: TextEncoder_encode_def enc1)
  have le: "int (length [0 :: byte]) \<le> maxPayloadBytes 2"
    by (simp add: maxPayloadBytes_cases)
  have e: "eccBytes 2 = 32" "nat (maxPayloadBytes 2) = 125" "length [0 :: byte] = 1"
    by (simp_all add: eccBytes_cases maxPayloadBytes_cases)
  have p: "[0 :: byte] @ replicate (125 - 1) 0 = 0 # replicate 124 0"
    by simp
  have d: "tryDecodeLinear (START_PATTERN_BITS @ bytesToBits (header 2 1 32)
            @ bytesToBits (simpleRS (0 # replicate 124 0) 32)) = None"
    using decode_encoded [OF le] unfolding e p by simp
  show ?thesis
    using t encodeText_Inr [OF le] d unfolding e p by (intro conjI)
qed

text \<open>
  The text U+FEFF, \<open>H\<close>, \<open>i\<close> is encoded as the bytes EF BB BF 48 69, and the decoder
  returns \<open>Hi\<close>: the \<open>TextDecoder\<close> drops the first code point U+FEFF.
\<close>

lemma bom_text_not_recovered:
  "TextEncoder_encode [0xFEFF, 72, 105] = [239, 187, 191, 72, 105]
   \<and> encodeText [239, 187, 191, 72, 105] 2 =
       Inr (START_PATTERN_BITS @ bytesToBits (header 2 5 32)
              @ bytesToBits (simpleRS (239 # 187 # 191 # 72 # 105 # replicate 120 0) 32))
   \<and> tryDecodeLinear (START_PATTERN_BITS @ bytesToBits (header 2 5 32)
            @ bytesToBits (simpleRS (239 # 187 # 191 # 72 # 105 # replicate 120 0) 32))
       = Some [72, 105]"
proof -
  have le: "int (length [239, 187, 191, 72, 105 :: byte]) \<le> maxPayloadBytes 2"
    by (simp add: maxPayloadBytes_cases)
  have e: "eccBytes 2 = 32" "nat (maxPayloadBytes 2) = 125"
    "length [239, 187, 191, 72, 105 :: byte] = 5"
    by (simp_all add: eccBytes_cases maxPayloadBytes_cases)
  have p: "[239, 187, 191, 72, 105 :: byte] @ replicate (125 - 5) 0
             = 239 # 187 # 191 # 72 # 105 # replicate 120 0"
    by simp
  have d: "tryDecodeLinear (START_PATTERN_BITS @ bytesToBits (header 2 5 32)
            @ bytesToBits (simpleRS (239 # 187 # 191 # 72 # 105 # replicate 120 0) 32))
             = Some [72, 105]"
    using decode_encoded [OF le] unfolding e p by (simp add: decode_BOM_Hi)
  show ?thesis
    using encode_BOM_Hi encodeText_Inr [OF le] d unfolding e p by (intro conjI)
qed

text \<open>
  The text made of the single code unit 0xD800, an unpaired surrogate, is encoded as the
  bytes EF BF BD of U+FFFD, and the decoder returns U+FFFD.
\<close>

lemma unpaired_surrogate_not_recovered:
  "TextEncoder_encode [0xD800] = [239, 191, 189]
   \<and> encodeText [239, 191, 189] 2 =
       Inr (START_PATTERN_BITS @ bytesToBits (header 2 3 32)
              @ bytesToBits (simpleRS (239 # 191 # 189 # replicate 122 0) 32))
   \<and> tryDecodeLinear (START_PATTERN_BITS @ bytesToBits (header 2 3 32)
            @ bytesToBits (simpleRS (239 # 191 # 189 # replicate 122 0) 32))
       = Some [0xFFFD]"
proof -
  have le: "int (length [239, 191, 189 :: byte]) \<le> maxPayloadBytes 2"
    by (simp add: maxPayloadBytes_cases)
  have e: "eccBytes 2 = 32" "nat (maxPayloadBytes 2) = 125" "length [239, 191, 189 :: byte] = 3"
    by (simp_all add: eccBytes_cases maxPayloadBytes_cases)
  have p: "[239, 191, 189 :: byte] @ replicate (125 - 3) 0 = 239 # 191 # 189 # replicate 122 0"
    by simp
  have d: "tryDecodeLinear (START_PATTERN_BITS @ bytesToBits (header 2 3 32)
            @ bytesToBits (simpleRS (239 # 191 # 189 # replicate 122 0) 32)) = Some [0xFFFD]"
    using decode_encoded [OF le] unfolding e p by (simp add: decode_unpaired)
  show ?thesis
    using encode_unpaired encodeText_Inr [OF le] d unfolding e p by (intro conjI)
qed

end
